theory Spec2Isabelle
  imports Main "HOL-Library.Signed_Division"
begin

section \<open>Distributed Game of Life (life.c): data model\<close>

text \<open>
  C \<open>int\<close> values are modelled as \<open>int\<close>. A C \<open>int\<close> has 32 bits: a result outside
  \<open>-2^31 .. 2^31 - 1\<close> wraps around in the compiled program, which is \<open>c_int\<close>. The
  product \<open>width * height\<close> leaves the range already for a grid of 65536 by 65536 cells.
  Where a definition below writes the product without \<open>c_int\<close>, it
  follows the code for a product in the range, and a theorem about it says so: by a hypothesis
  on the product, or by a grid of \<open>width * height\<close> cells, which main can only allocate
  when the product is in the range.
  The C remainder \<open>%\<close> truncates towards zero: it is \<open>smod\<close>.
  An array is a list; an access outside the allocated range is undefined behaviour in C and
  is the value \<open>None\<close> here.
\<close>

definition c_int :: "int \<Rightarrow> int" where
  "c_int x = (x + 2 ^ 31) mod 2 ^ 32 - 2 ^ 31"

record ProcInfo =
  offset :: int
  num_cells :: int

definition rd :: "'a list \<Rightarrow> int \<Rightarrow> 'a option" where
  "rd xs i = (if 0 \<le> i \<and> i < int (length xs) then Some (xs ! nat i) else None)"

definition wr :: "'a list \<Rightarrow> int \<Rightarrow> 'a \<Rightarrow> 'a list option" where
  "wr xs i v = (if 0 \<le> i \<and> i < int (length xs) then Some (xs[nat i := v]) else None)"

text \<open>
  \<open>for (int i = 0; i < n; ++i) body\<close>, for a body that changes neither \<open>i\<close> nor
  \<open>n\<close>: the state after \<open>n\<close> rounds is the state after \<open>n - 1\<close> rounds, then
  the body at \<open>i = n - 1\<close>. A failed round fails the loop.
\<close>

primrec for_loop :: "nat \<Rightarrow> (nat \<Rightarrow> 's \<Rightarrow> 's option) \<Rightarrow> 's \<Rightarrow> 's option" where
  "for_loop 0 body s = Some s"
| "for_loop (Suc n) body s = Option.bind (for_loop n body s) (body n)"

subsection \<open>Partitioning (main, lines 79 to 92)\<close>

text \<open>
  \<open>proc_data\<close> is \<open>calloc\<close>ed, so it starts as \<open>world_size\<close> zeroed entries.
  \<open>floor((double)width * height / world_size)\<close> is computed in double precision; both
  operands are integers below \<open>2^53\<close>, where the rounded quotient has the same floor as the
  exact one, so it is the floor division \<open>div\<close>.
  The definition is the code for a product \<open>width * height\<close> in the range of \<open>int\<close>:
  there the \<open>int\<close> product of the second line does not wrap and the quotient converts
  to \<open>int\<close> unchanged. Beyond the range the compiled program computes other numbers.
\<close>

definition proc_data_init :: "int \<Rightarrow> int \<Rightarrow> int \<Rightarrow> ProcInfo list option" where
  "proc_data_init width height world_size =
     (let normal_num_cells = (width * height) div world_size;
          overflow_cells = (width * height) smod world_size;
          proc_data = replicate (nat world_size) \<lparr>offset = 0, num_cells = 0\<rparr>
      in Option.bind
           (for_loop (nat (world_size - 1))
              (\<lambda>i pd. wr pd (int i)
                 \<lparr>offset = int i * normal_num_cells, num_cells = normal_num_cells\<rparr>)
              proc_data)
           (\<lambda>pd. wr pd (world_size - 1)
              \<lparr>offset = normal_num_cells * (world_size - 1),
               num_cells = normal_num_cells + overflow_cells\<rparr>))"

subsection \<open>Rule engine (apply_rules, lines 178 to 226)\<close>

text \<open>The table \<open>adjacency_offsets\<close> that main builds (lines 65 to 67) and passes on.\<close>

definition adjacency_offsets :: "int \<Rightarrow> int list" where
  "adjacency_offsets width =
     [- (width + 1), - width, - (width - 1), - 1, 1, width - 1, width, width + 1]"

text \<open>
  The test of lines 195 to 205 for one entry of the table. \<open>&&\<close> evaluates left to right
  and stops at the first false operand, so \<open>last_game_state\<close> is read only when the
  three tests before it hold. (\<open>% width\<close> with \<open>width = 0\<close> is never reached: then
  \<open>width * height = 0\<close> and the first two tests cannot both hold.)
\<close>

definition adj_cell_alive ::
  "bool list \<Rightarrow> int list \<Rightarrow> int \<Rightarrow> int \<Rightarrow> int \<Rightarrow> nat \<Rightarrow> bool option" where
  "adj_cell_alive last_game_state offs width height curr_cell_index adj_ind =
     Option.bind (rd offs (int adj_ind)) (\<lambda>off.
       if curr_cell_index + off \<ge> 0 \<and>
          curr_cell_index + off < width * height \<and>
          \<bar>curr_cell_index smod width - (curr_cell_index + off) smod width\<bar> \<le> 1
       then rd last_game_state (curr_cell_index + off)
       else Some False)"

text \<open>The inner loop (lines 185 to 209): the value of \<open>alive_adj_cells\<close> after it.\<close>

definition alive_adj_cells ::
  "bool list \<Rightarrow> int list \<Rightarrow> int \<Rightarrow> int \<Rightarrow> int \<Rightarrow> int option" where
  "alive_adj_cells last_game_state offs width height curr_cell_index =
     for_loop 8
       (\<lambda>adj_ind alive.
          Option.bind (adj_cell_alive last_game_state offs width height curr_cell_index adj_ind)
            (\<lambda>b. Some (if b then alive + 1 else alive)))
       0"

text \<open>One round of the outer loop (lines 184 to 224) for the cell \<open>curr_cell_index\<close>.\<close>

definition apply_rules_cell ::
  "bool list \<Rightarrow> bool list \<Rightarrow> int list \<Rightarrow> int \<Rightarrow> int \<Rightarrow> int \<Rightarrow> bool list option" where
  "apply_rules_cell last_game_state new_game_state offs width height curr_cell_index =
     Option.bind (alive_adj_cells last_game_state offs width height curr_cell_index) (\<lambda>alive.
     Option.bind (rd last_game_state curr_cell_index) (\<lambda>live.
       if live then
         (if alive = 2 \<or> alive = 3 then wr new_game_state curr_cell_index True
          else wr new_game_state curr_cell_index False)
       else
         (if alive = 3 then wr new_game_state curr_cell_index True
          else wr new_game_state curr_cell_index False)))"

definition apply_rules ::
  "ProcInfo list \<Rightarrow> bool list \<Rightarrow> bool list \<Rightarrow> int \<Rightarrow> int list \<Rightarrow> int \<Rightarrow> int
     \<Rightarrow> bool list option" where
  "apply_rules proc_data last_game_state new_game_state world_rank offs width height =
     Option.bind (rd proc_data world_rank) (\<lambda>pi.
       for_loop (nat (num_cells pi))
         (\<lambda>idx new. apply_rules_cell last_game_state new offs width height
                       (offset pi + int idx))
         new_game_state)"

subsection \<open>The rule engine as the specification words it\<close>

text \<open>
  The specification's \<open>nextState(cell, prev, width, height)\<close>: of the eight adjacency
  offsets, those whose candidate index \<open>n = cell + offset\<close> has \<open>0 \<le> n < width * height\<close>,
  \<open>abs((cell mod width) - (n mod width)) \<le> 1\<close> and \<open>prev[n] = true\<close> are the live
  neighbours; a live cell survives iff there are 2 or 3 of them, a dead cell becomes live iff
  there are exactly 3. Here \<open>mod\<close> is the mathematical one.
\<close>

definition liveNeighbors :: "int \<Rightarrow> bool list \<Rightarrow> int \<Rightarrow> int \<Rightarrow> nat" where
  "liveNeighbors cell prev width height =
     length (filter
       (\<lambda>off. 0 \<le> cell + off \<and> cell + off < width * height \<and>
              \<bar>cell mod width - (cell + off) mod width\<bar> \<le> 1 \<and> prev ! nat (cell + off))
       [- (width + 1), - width, - (width - 1), - 1, 1, width - 1, width, width + 1])"

definition nextState :: "int \<Rightarrow> bool list \<Rightarrow> int \<Rightarrow> int \<Rightarrow> bool" where
  "nextState cell prev width height =
     (if prev ! nat cell
      then liveNeighbors cell prev width height = 2 \<or> liveNeighbors cell prev width height = 3
      else liveNeighbors cell prev width height = 3)"

subsection \<open>One generation across the processes (main, lines 131 to 166)\<close>

text \<open>
  \<open>MPI_Send(buf + off, count, MPI_C_BOOL, ...)\<close> sends the \<open>count\<close> cells of \<open>buf\<close>
  from index \<open>off\<close>; \<open>MPI_Recv(buf + off, count, MPI_C_BOOL, ...)\<close> stores the message
  it receives from index \<open>off\<close> on, and fails when the message is longer than \<open>count\<close>.
  Both leave the buffer's range when \<open>[off, off + count)\<close> does.
\<close>

definition send_cells :: "bool list \<Rightarrow> int \<Rightarrow> int \<Rightarrow> bool list option" where
  "send_cells buf off cnt =
     (if 0 \<le> off \<and> 0 \<le> cnt \<and> off + cnt \<le> int (length buf)
      then Some (take (nat cnt) (drop (nat off) buf)) else None)"

definition recv_cells :: "bool list \<Rightarrow> int \<Rightarrow> int \<Rightarrow> bool list \<Rightarrow> bool list option" where
  "recv_cells buf off cnt msg =
     (if 0 \<le> off \<and> 0 \<le> cnt \<and> off + cnt \<le> int (length buf) \<and> int (length msg) \<le> cnt
      then Some (take (nat off) buf @ msg @ drop (nat off + length msg) buf) else None)"

text \<open>
  A worker's round (lines 156 to 165): receive the grid into its own \<open>last_game_state\<close>,
  apply the rules to its range of its own \<open>new_game_state\<close>, send that range back. The
  result is the worker's two buffers and the message it sends.
\<close>

definition worker_generation ::
  "ProcInfo list \<Rightarrow> int \<Rightarrow> bool list \<Rightarrow> bool list \<Rightarrow> bool list \<Rightarrow> int list \<Rightarrow> int \<Rightarrow> int
     \<Rightarrow> (bool list \<times> bool list \<times> bool list) option" where
  "worker_generation proc_data world_rank last_game_state new_game_state grid offs width height =
     Option.bind (recv_cells last_game_state 0 (width * height) grid) (\<lambda>last.
     Option.bind (apply_rules proc_data last new_game_state world_rank offs width height) (\<lambda>new.
     Option.bind (rd proc_data world_rank) (\<lambda>pi.
     Option.bind (send_cells new (offset pi) (num_cells pi)) (\<lambda>msg.
       Some (last, new, msg)))))"

text \<open>
  The controller's round (lines 131 to 152) without the printing: the grid it sends to every
  worker (the same send for each; there is none when the controller is alone), its own share
  of the rules, the merge of the workers' answers in rank order, and the swap of the two
  buffers. \<open>answer proc\<close> is the message worker \<open>proc\<close> sends back. The result is the
  pair (\<open>last_game_state\<close>, \<open>new_game_state\<close>) after the swap. The processes share no
  memory, so the result does not depend on how their steps interleave.
\<close>

definition controller_merge ::
  "ProcInfo list \<Rightarrow> int \<Rightarrow> bool list \<Rightarrow> (nat \<Rightarrow> bool list option) \<Rightarrow> bool list option" where
  "controller_merge proc_data world_size new_game_state answer =
     for_loop (nat (world_size - 1))
       (\<lambda>k new. let proc = k + 1 in
          Option.bind (rd proc_data (int proc)) (\<lambda>pi.
          Option.bind (answer proc) (\<lambda>msg.
            recv_cells new (offset pi) (num_cells pi) msg)))
       new_game_state"

definition generation ::
  "ProcInfo list \<Rightarrow> int \<Rightarrow> bool list \<Rightarrow> bool list \<Rightarrow> (nat \<Rightarrow> bool list \<times> bool list)
     \<Rightarrow> int list \<Rightarrow> int \<Rightarrow> int \<Rightarrow> (bool list \<times> bool list) option" where
  "generation proc_data world_size last_game_state new_game_state worker_bufs offs width height =
     Option.bind
       (if 1 < world_size then send_cells last_game_state 0 (width * height) else Some [])
       (\<lambda>grid.
     Option.bind (apply_rules proc_data last_game_state new_game_state 0 offs width height) (\<lambda>new.
     Option.bind
       (controller_merge proc_data world_size new
          (\<lambda>proc. map_option (\<lambda>(last, new, msg). msg)
             (worker_generation proc_data (int proc) (fst (worker_bufs proc))
                (snd (worker_bufs proc)) grid offs width height)))
       (\<lambda>merged. Some (merged, last_game_state))))"

subsection \<open>Grid neighbours\<close>

text \<open>
  The true neighbours of a cell in the \<open>width\<close> by \<open>height\<close> grid, row-major: the cells of
  the grid other than the cell itself whose row (\<open>index div width\<close>) and column
  (\<open>index mod width\<close>) each differ from the cell's by at most 1.
\<close>

definition grid_neighbor :: "int \<Rightarrow> int \<Rightarrow> int \<Rightarrow> int \<Rightarrow> bool" where
  "grid_neighbor width height cell n =
     (0 \<le> n \<and> n < width * height \<and> n \<noteq> cell \<and>
      \<bar>n div width - cell div width\<bar> \<le> 1 \<and> \<bar>n mod width - cell mod width\<bar> \<le> 1)"

text \<open>
  The eight (row, column) steps to a neighbour, in the order of the offset table: entry \<open>k\<close>
  of the table is \<open>dr * width + dc\<close> for the \<open>k\<close>-th pair. Used in the proofs only.
\<close>

definition dirs :: "(int \<times> int) list" where
  "dirs = [(- 1, - 1), (- 1, 0), (- 1, 1), (0, - 1), (0, 1), (1, - 1), (1, 0), (1, 1)]"

subsection \<open>Test grids\<close>

text \<open>
  The row-major grid whose cell at row \<open>r\<close> and column \<open>c\<close> is \<open>g r c\<close>, and the two
  phases of the blinker around row \<open>R\<close> and column \<open>C\<close>: three live cells in row \<open>R\<close>
  at columns \<open>C - 1\<close> to \<open>C + 1\<close>, and three live cells in column \<open>C\<close> at rows
  \<open>R - 1\<close> to \<open>R + 1\<close>; every other cell is dead.
\<close>

definition grid_of :: "(int \<Rightarrow> int \<Rightarrow> bool) \<Rightarrow> int \<Rightarrow> int \<Rightarrow> bool list" where
  "grid_of g width height =
     map (\<lambda>i. g (int i div width) (int i mod width)) [0..<nat (width * height)]"

definition horizontal_blinker :: "int \<Rightarrow> int \<Rightarrow> int \<Rightarrow> int \<Rightarrow> bool" where
  "horizontal_blinker R C r c = (r = R \<and> \<bar>c - C\<bar> \<le> 1)"

definition vertical_blinker :: "int \<Rightarrow> int \<Rightarrow> int \<Rightarrow> int \<Rightarrow> bool" where
  "vertical_blinker R C r c = (c = C \<and> \<bar>r - R\<bar> \<le> 1)"

subsection \<open>Initial state (fill_game_field, lines 247 to 263)\<close>

text \<open>
  \<open>draws k\<close> is the value the \<open>k\<close>-th call of \<open>rand()\<close> returns after the seeding.
  The loop state is the field, \<open>cells_to_generate\<close> and the number of calls of \<open>rand()\<close>
  made so far. In \<open>A && (B || C)\<close> the call of \<open>rand()\<close> in \<open>C\<close> happens only when
  \<open>A\<close> holds and \<open>B\<close> does not. \<open>cells\<close> is the value of the \<open>int\<close> product
  \<open>width * height\<close>, the same at each of its three places in the loop: it wraps around
  when the exact product is out of the range of \<open>int\<close>.
\<close>

definition fill_game_field_step ::
  "(nat \<Rightarrow> int) \<Rightarrow> int \<Rightarrow> int \<Rightarrow> nat \<Rightarrow> bool list \<times> int \<times> nat
     \<Rightarrow> (bool list \<times> int \<times> nat) option" where
  "fill_game_field_step draws cells live_cells =
     (\<lambda>i (field, cells_to_generate, k).
        if cells_to_generate > 0 then
          if cells - (int i + 1) = cells_to_generate then
            Option.bind (wr field (int i) True) (\<lambda>f. Some (f, cells_to_generate - 1, k))
          else if draws k smod cells < live_cells then
            Option.bind (wr field (int i) True) (\<lambda>f. Some (f, cells_to_generate - 1, Suc k))
          else Some (field, cells_to_generate, Suc k)
        else Some (field, cells_to_generate, k))"

definition fill_game_field ::
  "(nat \<Rightarrow> int) \<Rightarrow> bool list \<Rightarrow> int \<Rightarrow> int \<Rightarrow> int \<Rightarrow> bool list option" where
  "fill_game_field draws field width height live_cells =
     (let cells = c_int (width * height) in
      map_option fst
        (for_loop (nat cells)
           (fill_game_field_step draws cells live_cells)
           (field, live_cells, 0)))"

subsection \<open>Arguments (read_args, lines 265 to 287)\<close>

text \<open>
  The C library's \<open>strtol(nptr, NULL, 10)\<close>: leading white space is skipped, then an
  optional sign and the longest run of decimal digits are read; without digits the value is 0,
  and a value outside the range of \<open>long\<close> (64 bits) is clamped to it. Storing the
  \<open>long\<close> in an \<open>int\<close> keeps its low 32 bits.
\<close>

definition is_space :: "char \<Rightarrow> bool" where
  "is_space c = (c \<in> set [CHR 0x20, CHR 0x09, CHR 0x0A, CHR 0x0B, CHR 0x0C, CHR 0x0D])"

definition is_digit :: "char \<Rightarrow> bool" where
  "is_digit c = (48 \<le> (of_char c :: nat) \<and> (of_char c :: nat) \<le> 57)"

fun digits :: "int \<Rightarrow> string \<Rightarrow> int" where
  "digits acc [] = acc"
| "digits acc (c # cs) =
     (if is_digit c then digits (acc * 10 + (int (of_char c) - 48)) cs else acc)"

definition strtol :: "string \<Rightarrow> int" where
  "strtol nptr =
     (case dropWhile is_space nptr of
        [] \<Rightarrow> 0
      | c # cs \<Rightarrow>
          if c = CHR ''-'' then max (- (2 ^ 63)) (- digits 0 cs)
          else if c = CHR ''+'' then min (2 ^ 63 - 1) (digits 0 cs)
          else min (2 ^ 63 - 1) (digits 0 (c # cs)))"

definition long_to_int :: "int \<Rightarrow> int" where
  "long_to_int x = (x + 2 ^ 31) mod 2 ^ 32 - 2 ^ 31"

record RunConfig =
  cfg_live_cells :: int
  cfg_iterations :: int
  cfg_print_modulo :: int
  cfg_width :: int
  cfg_height :: int

text \<open>
  The five arguments as main holds them after read_args (\<open>live_cells\<close>, \<open>iterations\<close>,
  \<open>print_modulo\<close>, \<open>width\<close>, \<open>height\<close>), as the record above.
  How a process ends other than by returning from main: \<open>MPI_Abort\<close> with a status, after
  the text written to \<open>stderr\<close>, or undefined behaviour (an access outside an array, a null
  string, a division by zero).
\<close>

datatype error = Aborted int string | Undefined_behaviour

definition usage :: "string \<Rightarrow> string" where
  "usage argv0 =
     ''USAGE: ./'' @ argv0 @ '' i j k m n'' @ [CHR 0x0A, CHR 0x09] @
     ''i is the number of live cells'' @ [CHR 0x0A, CHR 0x09] @
     ''j is the number of iterations of the game of life'' @ [CHR 0x0A, CHR 0x09] @
     ''k is how often to print the game state (eg every kth iteration)'' @ [CHR 0x0A, CHR 0x09] @
     ''m is the game width'' @ [CHR 0x0A, CHR 0x09] @
     ''n is the game height'' @ [CHR 0x0A]"

text \<open>
  \<open>argv\<close> holds the \<open>argc\<close> argument strings; \<open>argv[argc]\<close> is the null pointer, so
  reading an argument at or beyond \<open>argc\<close> is undefined.
\<close>

definition read_args :: "int \<Rightarrow> string list \<Rightarrow> int \<Rightarrow> error + RunConfig" where
  "read_args argc argv proc_id =
     (if argc \<noteq> 6 \<and> proc_id = 0 then
        (case rd argv 0 of
           None \<Rightarrow> Inl Undefined_behaviour
         | Some argv0 \<Rightarrow> Inl (Aborted 1 (usage argv0)))
      else
        (case (rd argv 1, rd argv 2, rd argv 3, rd argv 4, rd argv 5) of
           (Some a1, Some a2, Some a3, Some a4, Some a5) \<Rightarrow>
             Inr \<lparr>cfg_live_cells = long_to_int (strtol a1), cfg_iterations = long_to_int (strtol a2),
                  cfg_print_modulo = long_to_int (strtol a3), cfg_width = long_to_int (strtol a4),
                  cfg_height = long_to_int (strtol a5)\<rparr>
         | _ \<Rightarrow> Inl Undefined_behaviour))"

subsection \<open>The whole run (main and print_game)\<close>

text \<open>
  What the controller prints: the line \<open>Game state on iteration n:\<close> and, from print_game,
  one line per row of the grid, a block for a live cell and a blank for a dead one.
\<close>

datatype printed = Game_state int | Row "bool list"

definition print_game :: "bool list \<Rightarrow> int \<Rightarrow> int \<Rightarrow> printed list option" where
  "print_game game_field width height =
     for_loop (nat height)
       (\<lambda>i out.
          map_option (\<lambda>row. out @ [Row row])
            (for_loop (nat width)
               (\<lambda>j row. map_option (\<lambda>b. row @ [b]) (rd game_field (int i * width + int j)))
               []))
       []"

text \<open>
  One round of main's loop (lines 120 to 168), the processes taken in turn: the controller
  prints when the iteration is a multiple of \<open>print_modulo\<close> (\<open>% 0\<close> is undefined), then
  the generation runs, and every worker keeps the buffers its round left. The state is the
  controller's two buffers, the workers' buffers by rank, and the output so far.
\<close>

definition main_iteration ::
  "RunConfig \<Rightarrow> ProcInfo list \<Rightarrow> int \<Rightarrow> nat
     \<Rightarrow> bool list \<times> bool list \<times> (nat \<Rightarrow> bool list \<times> bool list) \<times> printed list
     \<Rightarrow> (bool list \<times> bool list \<times> (nat \<Rightarrow> bool list \<times> bool list) \<times> printed list) option" where
  "main_iteration cfg proc_data world_size =
     (\<lambda>iteration (last_game_state, new_game_state, worker_bufs, out).
        if cfg_print_modulo cfg = 0 then None
        else
          Option.bind
            (if int iteration smod cfg_print_modulo cfg = 0
             then map_option (\<lambda>rows. out @ [Game_state (int iteration)] @ rows)
                    (print_game last_game_state (cfg_width cfg) (cfg_height cfg))
             else Some out) (\<lambda>out'.
          Option.bind
            (generation proc_data world_size last_game_state new_game_state worker_bufs
               (adjacency_offsets (cfg_width cfg)) (cfg_width cfg) (cfg_height cfg)) (\<lambda>(last', new').
          Some (last', new',
                (\<lambda>proc. case worker_generation proc_data (int proc) (fst (worker_bufs proc))
                               (snd (worker_bufs proc)) last_game_state
                               (adjacency_offsets (cfg_width cfg)) (cfg_width cfg) (cfg_height cfg) of
                           None \<Rightarrow> worker_bufs proc
                         | Some (l, n, msg) \<Rightarrow> (l, n)),
                out'))))"

text \<open>
  main for the whole run of \<open>world_size\<close> processes. Every process reads the arguments
  with its own rank (lines 54 to 55). Rank 0 may abort there, which ends every process; a
  rank other than 0 never aborts, and when it reads an argument that is missing its behaviour
  is undefined. That happens beside the abort of rank 0, and which of the two ends the run is
  not determined: the run is undefined then. Otherwise the outcome is that of rank 0: the
  buffers are allocated zeroed with the \<open>int\<close> product \<open>width * height\<close>, the field is
  filled, the partition table is built, and the loop runs \<open>iterations + 1\<close> times. The
  result is the output.
\<close>

definition rank_undefined :: "int \<Rightarrow> string list \<Rightarrow> nat \<Rightarrow> bool" where
  "rank_undefined argc argv rank =
     (case read_args argc argv (int rank) of
        Inl Undefined_behaviour \<Rightarrow> True
      | _ \<Rightarrow> False)"

definition main :: "int \<Rightarrow> string list \<Rightarrow> int \<Rightarrow> (nat \<Rightarrow> int) \<Rightarrow> error + printed list" where
  "main argc argv world_size draws =
     (if list_ex (rank_undefined argc argv) [1..<nat world_size] then Inl Undefined_behaviour
      else
      case read_args argc argv 0 of
        Inl e \<Rightarrow> Inl e
      | Inr cfg \<Rightarrow>
          (let zeroed = replicate (nat (c_int (cfg_width cfg * cfg_height cfg))) False in
           case
             Option.bind (fill_game_field draws zeroed (cfg_width cfg) (cfg_height cfg) (cfg_live_cells cfg))
               (\<lambda>field.
             Option.bind (proc_data_init (cfg_width cfg) (cfg_height cfg) world_size) (\<lambda>proc_data.
               for_loop (nat (cfg_iterations cfg + 1)) (main_iteration cfg proc_data world_size)
                 (field, zeroed, (\<lambda>proc. (zeroed, zeroed)), [])))
           of None \<Rightarrow> Inl Undefined_behaviour
            | Some (last_game_state, new_game_state, worker_bufs, out) \<Rightarrow> Inr out))"

text \<open>A source of random values that always returns the same value, for examples.\<close>

definition const_draws :: "int \<Rightarrow> nat \<Rightarrow> int" where
  "const_draws v k = v"

section \<open>Helper lemmas\<close>

lemma smod_nonneg: "0 \<le> a \<Longrightarrow> 0 < b \<Longrightarrow> a smod b = a mod (b::int)"
  by (simp add: smod_int_alt_def sgn_if)

lemma for_loop_wr:
  "k \<le> length xs \<Longrightarrow>
   for_loop k (\<lambda>i ys. wr ys (int i) (f i)) xs = Some (map f [0..<k] @ drop k xs)"
proof (induction k)
  case 0
  then show ?case by simp
next
  case (Suc k)
  then have k: "k < length xs" by simp
  have "(map f [0..<k] @ drop k xs)[k := f k] = map f [0..<k] @ f k # drop (Suc k) xs"
    using k by (simp add: list_update_append Cons_nth_drop_Suc [symmetric] )
  with Suc k show ?case by (simp add: wr_def)
qed

lemma proc_data_init_eq:
  assumes "1 \<le> world_size"
  shows "proc_data_init width height world_size =
     Some (map (\<lambda>i. \<lparr>offset = int i * ((width * height) div world_size),
                      num_cells = (width * height) div world_size\<rparr>) [0..<nat (world_size - 1)]
           @ [\<lparr>offset = ((width * height) div world_size) * (world_size - 1),
               num_cells = (width * height) div world_size + (width * height) smod world_size\<rparr>])"
proof -
  let ?z = "\<lparr>offset = 0::int, num_cells = 0::int\<rparr>"
  have len: "nat (world_size - 1) \<le> length (replicate (nat world_size) ?z)"
    using assms by simp
  have d: "drop (nat (world_size - 1)) (replicate (nat world_size) ?z) = [?z]"
    using assms by (simp add: nat_diff_distrib')
  show ?thesis
    unfolding proc_data_init_def Let_def for_loop_wr [OF len] d
    using assms by (simp add: wr_def list_update_append)
qed

lemma proc_data_init_nth:
  assumes ws: "1 \<le> world_size" and tot: "0 \<le> width * height"
  shows "\<exists>pd. proc_data_init width height world_size = Some pd \<and> length pd = nat world_size \<and>
     (\<forall>i < nat world_size. pd ! i =
        (if int i < world_size - 1
         then \<lparr>offset = int i * ((width * height) div world_size),
               num_cells = (width * height) div world_size\<rparr>
         else \<lparr>offset = ((width * height) div world_size) * (world_size - 1),
               num_cells = (width * height) div world_size + (width * height) mod world_size\<rparr>))"
proof -
  have sm: "(width * height) smod world_size = (width * height) mod world_size"
    using ws tot by (simp add: smod_nonneg)
  show ?thesis
    unfolding proc_data_init_eq [OF ws] sm
    using ws by (auto simp: nth_append)
qed

lemma proc_data_init_props:
  assumes tot: "1 \<le> width * height" and ws: "1 \<le> world_size"
  shows "\<exists>pd. proc_data_init width height world_size = Some pd \<and>
     length pd = nat world_size \<and>
     (\<forall>i. 0 \<le> i \<and> i < world_size - 1 \<longrightarrow>
        pd ! nat i = \<lparr>offset = i * ((width * height) div world_size),
                       num_cells = (width * height) div world_size\<rparr>) \<and>
     pd ! nat (world_size - 1) =
        \<lparr>offset = ((width * height) div world_size) * (world_size - 1),
         num_cells = (width * height) div world_size + (width * height) mod world_size\<rparr> \<and>
     offset (pd ! 0) = 0 \<and>
     (\<forall>i. Suc i < nat world_size \<longrightarrow>
        offset (pd ! Suc i) = offset (pd ! i) + num_cells (pd ! i)) \<and>
     offset (pd ! nat (world_size - 1)) + num_cells (pd ! nat (world_size - 1)) = width * height \<and>
     (\<forall>i < nat world_size. 0 \<le> num_cells (pd ! i)) \<and>
     (\<forall>i j. i < j \<and> j < nat world_size \<longrightarrow>
        offset (pd ! i) + num_cells (pd ! i) \<le> offset (pd ! j)) \<and>
     (\<Sum>p\<leftarrow>pd. num_cells p) = width * height"
proof -
  let ?b = "(width * height) div world_size"
  let ?r = "(width * height) mod world_size"
  from proc_data_init_nth [OF ws, of width height] tot
  obtain pd where pd: "proc_data_init width height world_size = Some pd"
    and len: "length pd = nat world_size"
    and nth: "\<And>i. i < nat world_size \<Longrightarrow> pd ! i =
        (if int i < world_size - 1 then \<lparr>offset = int i * ?b, num_cells = ?b\<rparr>
         else \<lparr>offset = ?b * (world_size - 1), num_cells = ?b + ?r\<rparr>)"
    by auto
  have b0: "0 \<le> ?b" using tot ws by (simp add: pos_imp_zdiv_nonneg_iff)
  have r0: "0 \<le> ?r" using ws by simp
  have split: "?b * world_size + ?r = width * height" by simp
  have off: "\<And>i. i < nat world_size \<Longrightarrow> offset (pd ! i) = int i * ?b"
    using nth ws by (auto simp: not_less) 
  have cnt: "\<And>i. i < nat world_size \<Longrightarrow>
      num_cells (pd ! i) = (if int i < world_size - 1 then ?b else ?b + ?r)"
    using nth by auto
  have c1: "\<forall>i. 0 \<le> i \<and> i < world_size - 1 \<longrightarrow>
        pd ! nat i = \<lparr>offset = i * ?b, num_cells = ?b\<rparr>"
    using nth by auto
  have c2: "pd ! nat (world_size - 1) = \<lparr>offset = ?b * (world_size - 1), num_cells = ?b + ?r\<rparr>"
    using nth [of "nat (world_size - 1)"] ws by auto
  have c3: "offset (pd ! 0) = 0" using off [of 0] ws by simp
  have c4: "\<forall>i. Suc i < nat world_size \<longrightarrow>
        offset (pd ! Suc i) = offset (pd ! i) + num_cells (pd ! i)"
  proof (intro allI impI)
    fix i assume i: "Suc i < nat world_size"
    then have "int i < world_size - 1" by linarith
    with i show "offset (pd ! Suc i) = offset (pd ! i) + num_cells (pd ! i)"
      by (simp add: off cnt algebra_simps)
  qed
  have c5: "offset (pd ! nat (world_size - 1)) + num_cells (pd ! nat (world_size - 1)) = width * height"
    unfolding c2 using split by (simp add: algebra_simps)
  have c6: "\<forall>i < nat world_size. 0 \<le> num_cells (pd ! i)"
    using cnt b0 r0 by simp
  have c7: "\<forall>i j. i < j \<and> j < nat world_size \<longrightarrow>
        offset (pd ! i) + num_cells (pd ! i) \<le> offset (pd ! j)"
  proof (intro allI impI)
    fix i j assume ij: "i < j \<and> j < nat world_size"
    then have i: "int i < world_size - 1" "i < nat world_size" by linarith+
    have "(int i + 1) * ?b \<le> int j * ?b"
      using ij b0 by (intro mult_right_mono) auto
    with i ij show "offset (pd ! i) + num_cells (pd ! i) \<le> offset (pd ! j)"
      by (simp add: off cnt algebra_simps)
  qed
  have pdeq: "pd = map (\<lambda>i. pd ! i) [0..<nat world_size]"
    using map_nth [of pd] len by simp
  have "(\<Sum>p\<leftarrow>pd. num_cells p) = (\<Sum>i\<leftarrow>[0..<nat world_size]. num_cells (pd ! i))"
    by (subst pdeq) (simp add: comp_def)
  also have "\<dots> = (\<Sum>i\<leftarrow>[0..<nat (world_size - 1)] @ [nat (world_size - 1)]. num_cells (pd ! i))"
  proof -
    have "nat world_size = Suc (nat (world_size - 1))" using ws by simp
    then have "[0..<nat world_size] = [0..<nat (world_size - 1)] @ [nat (world_size - 1)]"
      by (simp only: upt_Suc_append le0)
    then show ?thesis by simp
  qed
  also have "\<dots> = (\<Sum>i\<leftarrow>[0..<nat (world_size - 1)]. ?b) + (?b + ?r)"
  proof -
    have "map (\<lambda>i. num_cells (pd ! i)) [0..<nat (world_size - 1)] = map (\<lambda>i. ?b) [0..<nat (world_size - 1)]"
      by (rule map_cong) (auto simp: cnt)
    then have "(\<Sum>i\<leftarrow>[0..<nat (world_size - 1)]. num_cells (pd ! i)) = (\<Sum>i\<leftarrow>[0..<nat (world_size - 1)]. ?b)"
      by (rule arg_cong)
    then show ?thesis using c2 by simp
  qed
  also have "\<dots> = width * height"
    using ws split by (simp add: sum_list_triv algebra_simps)
  finally have c8: "(\<Sum>p\<leftarrow>pd. num_cells p) = width * height" .
  from pd len c1 c2 c3 c4 c5 c6 c7 c8 show ?thesis by blast
qed

lemma for_loop_count:
  "(\<And>i. i < k \<Longrightarrow> f i = Some (Q i)) \<Longrightarrow>
   for_loop k (\<lambda>i a. Option.bind (f i) (\<lambda>b. Some (if b then a + 1 else a))) (a0::int)
     = Some (a0 + int (length (filter Q [0..<k])))"
  by (induction k) auto

lemma length_adjacency_offsets: "length (adjacency_offsets width) = 8"
  by (simp add: adjacency_offsets_def)

lemma adj_cell_alive_eq:
  assumes len: "length prev = nat (width * height)" and w: "0 < width"
    and c: "0 \<le> cell" and i: "adj_ind < 8"
  shows "adj_cell_alive prev (adjacency_offsets width) width height cell adj_ind =
     Some (0 \<le> cell + adjacency_offsets width ! adj_ind \<and>
           cell + adjacency_offsets width ! adj_ind < width * height \<and>
           \<bar>cell mod width - (cell + adjacency_offsets width ! adj_ind) mod width\<bar> \<le> 1 \<and>
           prev ! nat (cell + adjacency_offsets width ! adj_ind))"
proof -
  let ?off = "adjacency_offsets width ! adj_ind"
  have r: "rd (adjacency_offsets width) (int adj_ind) = Some ?off"
    using i by (simp add: rd_def length_adjacency_offsets)
  show ?thesis
  proof (cases "0 \<le> cell + ?off \<and> cell + ?off < width * height")
    case True
    then have "rd prev (cell + ?off) = Some (prev ! nat (cell + ?off))"
      using len by (simp add: rd_def)
    moreover have "cell smod width = cell mod width" "(cell + ?off) smod width = (cell + ?off) mod width"
      using True c w by (simp_all add: smod_nonneg)
    ultimately show ?thesis
      unfolding adj_cell_alive_def r using True by simp
  next
    case False
    then show ?thesis unfolding adj_cell_alive_def r by auto
  qed
qed

lemma alive_adj_cells_eq:
  assumes len: "length prev = nat (width * height)" and w: "0 < width" and c: "0 \<le> cell"
  shows "alive_adj_cells prev (adjacency_offsets width) width height cell =
     Some (int (length (filter
       (\<lambda>off. 0 \<le> cell + off \<and> cell + off < width * height \<and>
              \<bar>cell mod width - (cell + off) mod width\<bar> \<le> 1 \<and> prev ! nat (cell + off))
       (adjacency_offsets width))))"
proof -
  let ?P = "\<lambda>off. 0 \<le> cell + off \<and> cell + off < width * height \<and>
              \<bar>cell mod width - (cell + off) mod width\<bar> \<le> 1 \<and> prev ! nat (cell + off)"
  have "alive_adj_cells prev (adjacency_offsets width) width height cell =
     Some (0 + int (length (filter (\<lambda>i. ?P (adjacency_offsets width ! i)) [0..<8])))"
    unfolding alive_adj_cells_def
    by (rule for_loop_count) (simp add: adj_cell_alive_eq [OF len w c])
  moreover have "length (filter (\<lambda>i. ?P (adjacency_offsets width ! i)) [0..<8])
     = length (filter ?P (map (\<lambda>i. adjacency_offsets width ! i) [0..<length (adjacency_offsets width)]))"
    unfolding length_adjacency_offsets filter_map length_map comp_def ..
  ultimately show ?thesis by (simp only: map_nth) simp
qed

lemma alive_adj_cells_liveNeighbors:
  assumes "length prev = nat (width * height)" "0 < width" "0 \<le> cell"
  shows "alive_adj_cells prev (adjacency_offsets width) width height cell =
     Some (int (liveNeighbors cell prev width height))"
  using alive_adj_cells_eq [OF assms] by (simp add: liveNeighbors_def adjacency_offsets_def)

lemma apply_rules_cell_eq:
  assumes len: "length prev = nat (width * height)" and w: "0 < width"
    and c: "0 \<le> cell" "cell < width * height" and ln: "length new = nat (width * height)"
  shows "apply_rules_cell prev new (adjacency_offsets width) width height cell =
     Some (new[nat cell := nextState cell prev width height])"
proof -
  have r: "rd prev cell = Some (prev ! nat cell)" using c len by (simp add: rd_def)
  have wr: "\<And>v. wr new cell v = Some (new[nat cell := v])" using c ln by (simp add: wr_def)
  show ?thesis
    unfolding apply_rules_cell_def alive_adj_cells_liveNeighbors [OF len w c(1)] r wr nextState_def
    by simp
qed

lemma for_loop_invariant:
  assumes "for_loop n body s = Some s'" and "P 0 s"
    and "\<And>i t u. i < n \<Longrightarrow> P i t \<Longrightarrow> body i t = Some u \<Longrightarrow> P (Suc i) u"
  shows "P n s'"
  using assms
proof (induction n arbitrary: s')
  case 0
  then show ?case by simp
next
  case (Suc n)
  from Suc.prems(1) obtain t where t: "for_loop n body s = Some t" and b: "body n t = Some s'"
    by (auto simp: bind_eq_Some_conv)
  have "P n t" using Suc.IH [OF t Suc.prems(2)] Suc.prems(3) by simp
  then show ?case using Suc.prems(3) [of n t s'] b by simp
qed

lemma for_loop_total:
  assumes "P 0 s"
    and "\<And>i t. i < n \<Longrightarrow> P i t \<Longrightarrow> \<exists>u. body i t = Some u \<and> P (Suc i) u"
  shows "\<exists>s'. for_loop n body s = Some s' \<and> P n s'"
  using assms
proof (induction n)
  case 0
  then show ?case by simp
next
  case (Suc n)
  then obtain t where t: "for_loop n body s = Some t" "P n t" by force
  with Suc.prems(2) [of n t] show ?case by auto
qed

lemma apply_rules_cell_frame:
  assumes "apply_rules_cell prev new offs width height cur = Some new'"
  shows "0 \<le> cur \<and> cur < int (length new) \<and> (\<exists>v. new' = new[nat cur := v])"
  using assms
  by (auto simp: apply_rules_cell_def wr_def bind_eq_Some_conv split: if_splits)

lemma apply_rules_frame:
  assumes "apply_rules proc_data prev new world_rank offs width height = Some new'"
    and "rd proc_data world_rank = Some pi"
  shows "length new' = length new \<and>
    (\<forall>j. \<not> (offset pi \<le> int j \<and> int j < offset pi + num_cells pi) \<longrightarrow> new' ! j = new ! j)"
proof -
  let ?P = "\<lambda>(k::nat) t. length t = length new \<and>
     (\<forall>j. \<not> (offset pi \<le> int j \<and> int j < offset pi + int k) \<longrightarrow> t ! j = new ! j)"
  from assms have fl: "for_loop (nat (num_cells pi))
         (\<lambda>idx new. apply_rules_cell prev new offs width height (offset pi + int idx)) new = Some new'"
    by (simp add: apply_rules_def)
  have "?P (nat (num_cells pi)) new'"
  proof (rule for_loop_invariant [OF fl])
    show "?P 0 new" by auto
  next
    fix i t u
    assume i: "i < nat (num_cells pi)" and P: "?P i t"
      and b: "apply_rules_cell prev t offs width height (offset pi + int i) = Some u"
    from apply_rules_cell_frame [OF b] obtain v where
      v: "0 \<le> offset pi + int i" "u = t[nat (offset pi + int i) := v]" by blast
    show "?P (Suc i) u"
    proof (intro conjI allI impI)
      show "length u = length new" using v P by simp
    next
      fix j assume j: "\<not> (offset pi \<le> int j \<and> int j < offset pi + int (Suc i))"
      have "j \<noteq> nat (offset pi + int i)"
      proof
        assume "j = nat (offset pi + int i)"
        then have "int j = offset pi + int i" using v(1) by simp
        with j show False by simp
      qed
      moreover have "\<not> (offset pi \<le> int j \<and> int j < offset pi + int i)" using j by auto
      ultimately show "u ! j = new ! j" using v P by simp
    qed
  qed
  moreover have "num_cells pi \<le> 0 \<or> int (nat (num_cells pi)) = num_cells pi" by auto
  ultimately show ?thesis by auto
qed

lemma apply_rules_eq:
  assumes pi: "rd proc_data world_rank = Some pi"
    and w: "0 < width"
    and len: "length prev = nat (width * height)" and ln: "length new = nat (width * height)"
    and off: "0 \<le> offset pi" and fit: "offset pi + num_cells pi \<le> width * height"
  shows "\<exists>new'. apply_rules proc_data prev new world_rank (adjacency_offsets width) width height
            = Some new' \<and> length new' = length new \<and>
      (\<forall>j < length new. new' ! j =
         (if offset pi \<le> int j \<and> int j < offset pi + num_cells pi
          then nextState (int j) prev width height else new ! j))"
proof -
  let ?P = "\<lambda>(k::nat) t. length t = length new \<and>
     (\<forall>j < length new. t ! j = (if offset pi \<le> int j \<and> int j < offset pi + int k
          then nextState (int j) prev width height else new ! j))"
  have "\<exists>s'. for_loop (nat (num_cells pi))
         (\<lambda>idx new. apply_rules_cell prev new (adjacency_offsets width) width height (offset pi + int idx))
         new = Some s' \<and> ?P (nat (num_cells pi)) s'"
  proof (rule for_loop_total)
    show "?P 0 new" by auto
  next
    fix i t
    assume i: "i < nat (num_cells pi)" and P: "?P i t"
    let ?c = "offset pi + int i"
    have c: "0 \<le> ?c" "?c < width * height" using off fit i by auto
    have lt: "length t = nat (width * height)" using P ln by simp
    have eq: "apply_rules_cell prev t (adjacency_offsets width) width height ?c
       = Some (t[nat ?c := nextState ?c prev width height])"
      by (rule apply_rules_cell_eq [OF len w c lt])
    have "?P (Suc i) (t[nat ?c := nextState ?c prev width height])"
    proof (intro conjI allI impI)
      show "length (t[nat ?c := nextState ?c prev width height]) = length new" using P by simp
    next
      fix j assume j: "j < length new"
      show "t[nat ?c := nextState ?c prev width height] ! j =
         (if offset pi \<le> int j \<and> int j < offset pi + int (Suc i)
          then nextState (int j) prev width height else new ! j)"
      proof (cases "j = nat ?c")
        case True
        then have "int j = ?c" using c by simp
        then show ?thesis using True j P by simp
      next
        case False
        then have "int j \<noteq> ?c" by auto
        then have "(offset pi \<le> int j \<and> int j < offset pi + int (Suc i))
           = (offset pi \<le> int j \<and> int j < offset pi + int i)" by auto
        then show ?thesis using False j P by simp
      qed
    qed
    with eq show "\<exists>u. apply_rules_cell prev t (adjacency_offsets width) width height ?c = Some u
       \<and> ?P (Suc i) u" by blast
  qed
  moreover have "num_cells pi \<le> 0 \<or> int (nat (num_cells pi)) = num_cells pi" by auto
  ultimately show ?thesis unfolding apply_rules_def pi by auto
qed

lemma recv_cells_nth:
  assumes "recv_cells buf off cnt msg = Some buf'" and lm: "int (length msg) = cnt"
  shows "length buf' = length buf \<and>
    (\<forall>j < length buf. buf' ! j =
       (if off \<le> int j \<and> int j < off + cnt then msg ! (j - nat off) else buf ! j))"
proof -
  from assms(1) have c: "0 \<le> off" "0 \<le> cnt" "off + cnt \<le> int (length buf)"
    and b: "buf' = take (nat off) buf @ msg @ drop (nat off + length msg) buf"
    by (auto simp: recv_cells_def split: if_splits)
  have l: "length buf' = length buf" using b c lm by auto
  have "\<forall>j < length buf. buf' ! j =
       (if off \<le> int j \<and> int j < off + cnt then msg ! (j - nat off) else buf ! j)"
  proof (intro allI impI)
    fix j assume j: "j < length buf"
    consider "int j < off" | "off \<le> int j" "int j < off + cnt" | "off + cnt \<le> int j" by linarith
    then show "buf' ! j = (if off \<le> int j \<and> int j < off + cnt then msg ! (j - nat off) else buf ! j)"
    proof cases
      case 1
      then have "j < nat off" by linarith
      then show ?thesis using 1 b j by (simp add: nth_append)
    next
      case 2
      then have "\<not> j < nat off" "j - nat off < length msg" using lm c by linarith+
      then show ?thesis using 2 b j c by (simp add: nth_append)
    next
      case 3
      then have a: "\<not> j < nat off" "\<not> j - nat off < length msg" using lm c by linarith+
      have m: "min (length buf) (nat off) = nat off" using c by linarith
      have "nat off + length msg + (j - nat off - length msg) = j" using a by linarith
      then show ?thesis using 3 b j c a lm by (simp add: nth_append m)
    qed
  qed
  with l show ?thesis by blast
qed

lemma send_cells_nth:
  assumes "0 \<le> off" "0 \<le> cnt" "off + cnt \<le> int (length buf)"
  shows "\<exists>msg. send_cells buf off cnt = Some msg \<and> int (length msg) = cnt \<and>
     (\<forall>k < length msg. msg ! k = buf ! (nat off + k))"
  using assms by (auto simp: send_cells_def)

lemma recv_whole:
  assumes "length buf = nat n" "length grid = nat n" "0 \<le> n"
  shows "recv_cells buf 0 n grid = Some grid"
  using assms  by (auto simp: recv_cells_def)

lemma send_whole:
  assumes "length buf = nat n" "0 \<le> n"
  shows "send_cells buf 0 n = Some buf"
  using assms by (auto simp: send_cells_def)

lemma worker_generation_msg:
  assumes pi: "rd proc_data world_rank = Some pi"
    and w: "0 < width" and h: "0 < height"
    and lg: "length grid = nat (width * height)"
    and ll: "length wlast = nat (width * height)" and ln: "length wnew = nat (width * height)"
    and off: "0 \<le> offset pi" and cnt: "0 \<le> num_cells pi"
    and fit: "offset pi + num_cells pi \<le> width * height"
  shows "\<exists>new' msg. worker_generation proc_data world_rank wlast wnew grid
            (adjacency_offsets width) width height = Some (grid, new', msg) \<and>
       int (length msg) = num_cells pi \<and>
       (\<forall>k < length msg. msg ! k = nextState (offset pi + int k) grid width height)"
proof -
  have r: "recv_cells wlast 0 (width * height) grid = Some grid"
    using ll lg w h by (intro recv_whole) simp_all
  from apply_rules_eq [OF pi w lg ln off fit]
  obtain new' where a: "apply_rules proc_data grid wnew world_rank (adjacency_offsets width) width height = Some new'"
    and l: "length new' = length wnew"
    and n: "\<And>j. j < length wnew \<Longrightarrow> new' ! j =
         (if offset pi \<le> int j \<and> int j < offset pi + num_cells pi
          then nextState (int j) grid width height else wnew ! j)"
    by blast
  have "offset pi + num_cells pi \<le> int (length new')" using fit l ln w h by simp
  from send_cells_nth [OF off cnt this]
  obtain msg where s: "send_cells new' (offset pi) (num_cells pi) = Some msg"
    and lm: "int (length msg) = num_cells pi"
    and m: "\<And>k. k < length msg \<Longrightarrow> msg ! k = new' ! (nat (offset pi) + k)" by blast
  have "\<forall>k < length msg. msg ! k = nextState (offset pi + int k) grid width height"
  proof (intro allI impI)
    fix k assume k: "k < length msg"
    have "nat (offset pi) + k < length wnew" using k lm fit ln off by linarith
    from n [OF this] m [OF k] show "msg ! k = nextState (offset pi + int k) grid width height"
      using k lm off by (simp add: nat_add_distrib)
  qed
  with lm show ?thesis using r a pi s by (simp add: worker_generation_def)
qed

lemma proc_data_init_bounds:
  assumes tot: "0 \<le> width * height" and ws: "1 \<le> world_size"
  shows "\<exists>pd. proc_data_init width height world_size = Some pd \<and> length pd = nat world_size \<and>
     (\<forall>p < nat world_size. 0 \<le> offset (pd ! p) \<and> 0 \<le> num_cells (pd ! p) \<and>
         offset (pd ! p) + num_cells (pd ! p) \<le> width * height)"
proof -
  let ?b = "(width * height) div world_size"
  let ?r = "(width * height) mod world_size"
  from proc_data_init_nth [OF ws tot]
  obtain pd where pd: "proc_data_init width height world_size = Some pd"
    and len: "length pd = nat world_size"
    and nth: "\<And>i. i < nat world_size \<Longrightarrow> pd ! i =
        (if int i < world_size - 1 then \<lparr>offset = int i * ?b, num_cells = ?b\<rparr>
         else \<lparr>offset = ?b * (world_size - 1), num_cells = ?b + ?r\<rparr>)"
    by auto
  have b0: "0 \<le> ?b" using tot ws by (simp add: pos_imp_zdiv_nonneg_iff)
  have r0: "0 \<le> ?r" using ws by simp
  have split: "?b * world_size + ?r = width * height" by simp
  have "\<forall>p < nat world_size. 0 \<le> offset (pd ! p) \<and> 0 \<le> num_cells (pd ! p) \<and>
         offset (pd ! p) + num_cells (pd ! p) \<le> width * height"
  proof (intro allI impI)
    fix p assume p: "p < nat world_size"
    show "0 \<le> offset (pd ! p) \<and> 0 \<le> num_cells (pd ! p) \<and>
         offset (pd ! p) + num_cells (pd ! p) \<le> width * height"
    proof (cases "int p < world_size - 1")
      case True
      have "(int p + 1) * ?b \<le> world_size * ?b"
        using True b0 by (intro mult_right_mono) auto
      also have "\<dots> \<le> width * height" using split r0 by (simp only: mult.commute [of world_size])
      finally show ?thesis using True nth [OF p] b0 by (simp add: algebra_simps)
    next
      case False
      have "?b * (world_size - 1) + (?b + ?r) = width * height"
        using split by (simp add: algebra_simps)
      then show ?thesis using False nth [OF p] b0 r0 ws by simp
    qed
  qed
  with pd len show ?thesis by blast
qed

lemma partition_unique_owner:
  assumes tot: "1 \<le> width * height" and ws: "1 \<le> world_size"
    and pd: "proc_data_init width height world_size = Some pd"
    and i: "0 \<le> i" "i < width * height"
  shows "\<exists>!p. p < nat world_size \<and> offset (pd ! p) \<le> i \<and> i < offset (pd ! p) + num_cells (pd ! p)"
proof -
  let ?e = "\<lambda>p. offset (pd ! p) + num_cells (pd ! p)"
  from proc_data_init_props [OF tot ws] pd
  have c3: "offset (pd ! 0) = 0"
    and c4: "\<And>p. Suc p < nat world_size \<Longrightarrow> offset (pd ! Suc p) = ?e p"
    and c5: "?e (nat (world_size - 1)) = width * height"
    and c7: "\<And>p q. p < q \<Longrightarrow> q < nat world_size \<Longrightarrow> ?e p \<le> offset (pd ! q)"
    by auto
  let ?Q = "\<lambda>p. p < nat world_size \<and> i < ?e p"
  have ex: "?Q (nat (world_size - 1))" using c5 i ws by simp
  define m where "m = (LEAST p. ?Q p)"
  have Qm: "?Q m" unfolding m_def using ex by (rule LeastI)
  have lo: "offset (pd ! m) \<le> i"
  proof (cases m)
    case 0
    then show ?thesis using c3 i by simp
  next
    case (Suc k)
    have "\<not> ?Q k" unfolding m_def [symmetric] using not_less_Least [of k ?Q] Suc m_def by simp
    then have "?e k \<le> i" using Qm Suc by simp
    then show ?thesis using c4 [of k] Qm Suc by simp
  qed
  show ?thesis
  proof (rule ex1I [of _ m])
    show "m < nat world_size \<and> offset (pd ! m) \<le> i \<and> i < ?e m" using Qm lo by simp
  next
    fix p assume p: "p < nat world_size \<and> offset (pd ! p) \<le> i \<and> i < ?e p"
    show "p = m"
    proof (rule ccontr)
      assume "p \<noteq> m"
      then consider "p < m" | "m < p" by linarith
      then show False
      proof cases
        case 1
        then show ?thesis using c7 [of p m] Qm p lo by simp
      next
        case 2
        then show ?thesis using c7 [of m p] Qm p by simp
      qed
    qed
  qed
qed

lemma generation_refines:
  assumes w: "0 < width" and h: "0 < height" and ws: "1 \<le> world_size"
    and lp: "length prev = nat (width * height)" and ln: "length new = nat (width * height)"
    and lw: "\<And>p. 1 \<le> p \<Longrightarrow> p < nat world_size \<Longrightarrow>
          length (fst (worker_bufs p)) = nat (width * height) \<and>
          length (snd (worker_bufs p)) = nat (width * height)"
    and pd: "proc_data_init width height world_size = Some pd"
  shows "\<exists>merged. generation pd world_size prev new worker_bufs (adjacency_offsets width)
             width height = Some (merged, prev) \<and>
      length merged = nat (width * height) \<and>
      (\<forall>i. 0 \<le> i \<and> i < width * height \<longrightarrow> merged ! nat i = nextState i prev width height)"
proof -
  let ?n = "nat (width * height)"
  let ?offs = "adjacency_offsets width"
  let ?in = "\<lambda>p (j::nat). offset (pd ! p) \<le> int j \<and> int j < offset (pd ! p) + num_cells (pd ! p)"
  have tot: "1 \<le> width * height" using w h by (simp add: Suc_le_eq less_eq_Suc_le mult_pos_pos int_one_le_iff_zero_less)
  from proc_data_init_bounds [OF _ ws, of width height] tot pd
  have len: "length pd = nat world_size"
    and bnd: "\<And>p. p < nat world_size \<Longrightarrow> 0 \<le> offset (pd ! p) \<and> 0 \<le> num_cells (pd ! p) \<and>
         offset (pd ! p) + num_cells (pd ! p) \<le> width * height"
    by auto
  have rdp: "\<And>p. p < nat world_size \<Longrightarrow> rd pd (int p) = Some (pd ! p)"
    using len ws by (auto simp: rd_def)
  define grid where "grid = (if 1 < world_size then prev else [])"
  have grid: "(if 1 < world_size then send_cells prev 0 (width * height) else Some []) = Some grid"
    using lp tot send_whole [of prev "width * height"] by (simp add: grid_def)
  \<comment> \<open>the controller's own share\<close>
  have p0: "0 < nat world_size" using ws by simp
  from apply_rules_eq [OF rdp [OF p0, simplified] w lp ln] bnd [OF p0]
  obtain new1 where a1: "apply_rules pd prev new 0 ?offs width height = Some new1"
    and l1: "length new1 = ?n"
    and n1: "\<And>j. j < ?n \<Longrightarrow> ?in 0 j \<Longrightarrow> new1 ! j = nextState (int j) prev width height"
    using ln by auto
  \<comment> \<open>the workers' answers\<close>
  let ?answer = "\<lambda>proc. map_option (\<lambda>(last, new, msg). msg)
             (worker_generation pd (int proc) (fst (worker_bufs proc))
                (snd (worker_bufs proc)) grid ?offs width height)"
  have ans: "\<exists>msg. ?answer p = Some msg \<and> int (length msg) = num_cells (pd ! p) \<and>
       (\<forall>k < length msg. msg ! k = nextState (offset (pd ! p) + int k) prev width height)"
    if p: "1 \<le> p" "p < nat world_size" for p
  proof -
    have "1 < world_size" using p by linarith
    then have g: "grid = prev" by (simp add: grid_def)
    from bnd [OF p(2)] lw [OF p]
      worker_generation_msg [OF rdp [OF p(2)] w h lp, of "fst (worker_bufs p)" "snd (worker_bufs p)"]
    show ?thesis unfolding g by auto
  qed
  \<comment> \<open>the merge loop\<close>
  let ?P = "\<lambda>(k::nat) t. length t = ?n \<and>
     (\<forall>j < ?n. (\<exists>p \<le> k. p < nat world_size \<and> ?in p j) \<longrightarrow>
         t ! j = nextState (int j) prev width height)"
  have "\<exists>s'. controller_merge pd world_size new1 ?answer = Some s' \<and> ?P (nat (world_size - 1)) s'"
    unfolding controller_merge_def
  proof (rule for_loop_total)
    show "?P 0 new1" using l1 n1 by auto
  next
    fix i t
    assume i: "i < nat (world_size - 1)" and P: "?P i t"
    let ?p = "i + 1"
    have p: "1 \<le> ?p" "?p < nat world_size" using i by linarith+
    from ans [OF p] obtain msg where m: "?answer ?p = Some msg"
      and lm: "int (length msg) = num_cells (pd ! ?p)"
      and nm: "\<And>k. k < length msg \<Longrightarrow>
          msg ! k = nextState (offset (pd ! ?p) + int k) prev width height"
      by blast
    have b: "0 \<le> offset (pd ! ?p)" "0 \<le> num_cells (pd ! ?p)"
      "offset (pd ! ?p) + num_cells (pd ! ?p) \<le> int (length t)"
      using bnd [OF p(2)] P tot by auto
    then obtain u where u: "recv_cells t (offset (pd ! ?p)) (num_cells (pd ! ?p)) msg = Some u"
      using lm by (auto simp: recv_cells_def)
    from recv_cells_nth [OF u lm] have lu: "length u = length t"
      and nuT: "\<And>j. j < length t \<Longrightarrow> ?in ?p j \<Longrightarrow> u ! j = msg ! (j - nat (offset (pd ! ?p)))"
      and nuF: "\<And>j. j < length t \<Longrightarrow> \<not> ?in ?p j \<Longrightarrow> u ! j = t ! j"
      by auto
    have lt: "length t = ?n" using P by simp
    have "?P (Suc i) u"
    proof (intro conjI allI impI)
      show "length u = ?n" using lu P by simp
    next
      fix j assume j: "j < ?n" and e: "\<exists>p \<le> Suc i. p < nat world_size \<and> ?in p j"
      show "u ! j = nextState (int j) prev width height"
      proof (cases "?in ?p j")
        case True
        then have k: "j - nat (offset (pd ! ?p)) < length msg" using lm b by linarith
        have "offset (pd ! ?p) + int (j - nat (offset (pd ! ?p))) = int j"
          using True b by linarith
        with nm [OF k]
        have "msg ! (j - nat (offset (pd ! ?p))) = nextState (int j) prev width height"
          by (simp only:)
        moreover have "u ! j = msg ! (j - nat (offset (pd ! ?p)))"
          using j True unfolding lt [symmetric] by (rule nuT)
        ultimately show ?thesis by (simp only:)
      next
        case False
        with e have "\<exists>p \<le> i. p < nat world_size \<and> ?in p j"
          by (metis Suc_eq_plus1 le_SucE)
        with P j have "t ! j = nextState (int j) prev width height" by blast
        moreover have "u ! j = t ! j"
          using j False unfolding lt [symmetric] by (rule nuF)
        ultimately show ?thesis by (simp only:)
      qed
    qed
    with u m rdp [OF p(2)]
    show "\<exists>u. (let proc = i + 1 in
          Option.bind (rd pd (int proc)) (\<lambda>pi.
          Option.bind (?answer proc) (\<lambda>msg.
            recv_cells t (offset pi) (num_cells pi) msg))) = Some u \<and> ?P (Suc i) u"
      by (auto simp: Let_def)
  qed
  then obtain merged where mg: "controller_merge pd world_size new1 ?answer = Some merged"
    and lmg: "length merged = ?n"
    and nmg: "\<And>j. j < ?n \<Longrightarrow> (\<exists>p \<le> nat (world_size - 1). p < nat world_size \<and> ?in p j) \<Longrightarrow>
         merged ! j = nextState (int j) prev width height"
    by blast
  have "\<forall>i. 0 \<le> i \<and> i < width * height \<longrightarrow> merged ! nat i = nextState i prev width height"
  proof (intro allI impI)
    fix i assume i: "0 \<le> i \<and> i < width * height"
    from partition_unique_owner [OF tot ws pd, of i] i
    obtain p where p: "p < nat world_size" "offset (pd ! p) \<le> i" "i < offset (pd ! p) + num_cells (pd ! p)"
      by blast
    have "p \<le> nat (world_size - 1)" using p(1) by linarith
    with p i nmg [of "nat i"] show "merged ! nat i = nextState i prev width height"
      by auto
  qed
  with lmg show ?thesis unfolding generation_def grid using a1 mg by simp
qed

lemma range_iff:
  assumes w: "0 < (w::int)" and x: "0 \<le> x" "x < w"
  shows "(0 \<le> q * w + x \<and> q * w + x < w * h) \<longleftrightarrow> (0 \<le> q \<and> q < h)"
proof
  assume a: "0 \<le> q * w + x \<and> q * w + x < w * h"
  have "0 \<le> q"
  proof (rule ccontr)
    assume "\<not> 0 \<le> q"
    then have "q \<le> - 1" by simp
    then have "q * w \<le> - 1 * w" using w by (intro mult_right_mono) simp_all
    with a x show False by simp
  qed
  moreover have "q < h"
  proof (rule ccontr)
    assume "\<not> q < h"
    then have "h \<le> q" by simp
    then have "h * w \<le> q * w" using w by (intro mult_right_mono) simp_all
    with a x show False by (simp add: mult.commute)
  qed
  ultimately show "0 \<le> q \<and> q < h" ..
next
  assume a: "0 \<le> q \<and> q < h"
  then have "0 \<le> q * w" using w by simp
  moreover have "(q + 1) * w \<le> h * w" using a w by (intro mult_right_mono) simp_all
  then have "q * w + w \<le> w * h" by (simp add: algebra_simps)
  ultimately show "0 \<le> q * w + x \<and> q * w + x < w * h" using x by simp
qed

text \<open>the candidate at row offset dr and column offset dc\<close>
lemma cand_check:
  assumes w: "3 \<le> width" and c: "0 \<le> c" "c < width"
    and dr: "dr = - 1 \<or> dr = 0 \<or> dr = 1" and dc: "dc = - 1 \<or> dc = 0 \<or> dc = (1::int)"
  shows "(0 \<le> (r * width + c) + (dr * width + dc) \<and>
          (r * width + c) + (dr * width + dc) < width * height \<and>
          \<bar>(r * width + c) mod width - ((r * width + c) + (dr * width + dc)) mod width\<bar> \<le> 1)
     \<longleftrightarrow> (0 \<le> r + dr \<and> r + dr < height \<and> 0 \<le> c + dc \<and> c + dc < width)"
proof -
  let ?n = "(r * width + c) + (dr * width + dc)"
  have n: "?n = (r + dr) * width + (c + dc)"
    by (simp add: algebra_simps)
  have m0: "(r * width + c) mod width = c" using c by simp
  consider "c + dc = - 1" | "c + dc = width" | "0 \<le> c + dc" "c + dc < width"
    using c dc by linarith
  then show ?thesis
  proof cases
    case 1
    then have c0: "c = 0" using c dc by linarith
    have "?n mod width = (- 1) mod width"
      unfolding n 1 by (rule mod_mult_self3)
    also have "\<dots> = width - 1" using w by (simp add: zmod_minus1)
    finally have nm: "?n mod width = width - 1" .
    have "\<not> \<bar>c - (width - 1)\<bar> \<le> 1" using c0 w by simp
    then have "\<not> \<bar>(r * width + c) mod width - ?n mod width\<bar> \<le> 1"
      unfolding m0 nm .
    moreover have "\<not> 0 \<le> c + dc" using 1 by simp
    ultimately show ?thesis by blast
  next
    case 2
    then have c1: "c = width - 1" using c dc by linarith
    have nm: "?n mod width = 0"
      unfolding n 2 by simp
    have "\<not> \<bar>c - 0\<bar> \<le> 1" using c1 w by simp
    then have "\<not> \<bar>(r * width + c) mod width - ?n mod width\<bar> \<le> 1"
      unfolding m0 nm .
    moreover have "\<not> c + dc < width" using 2 by simp
    ultimately show ?thesis by blast
  next
    case 3
    have nm: "?n mod width = c + dc" unfolding n using 3 by simp
    have "\<bar>c - (c + dc)\<bar> \<le> 1" using dc by linarith
    then have col: "\<bar>(r * width + c) mod width - ?n mod width\<bar> \<le> 1"
      unfolding m0 nm .
    have "(0 \<le> (r + dr) * width + (c + dc) \<and> (r + dr) * width + (c + dc) < width * height)
       \<longleftrightarrow> (0 \<le> r + dr \<and> r + dr < height)"
      using 3 w by (intro range_iff) simp_all
    then have "(0 \<le> ?n \<and> ?n < width * height) \<longleftrightarrow> (0 \<le> r + dr \<and> r + dr < height)"
      unfolding n .
    with col 3 show ?thesis by blast
  qed
qed

lemma grid_neighbor_cand:
  assumes w: "3 \<le> width" and c: "0 \<le> c" "c < width"
    and dr: "dr = - 1 \<or> dr = 0 \<or> dr = 1" and dc: "dc = - 1 \<or> dc = 0 \<or> dc = (1::int)"
    and nz: "dr \<noteq> 0 \<or> dc \<noteq> 0"
  shows "grid_neighbor width height (r * width + c) ((r * width + c) + (dr * width + dc))
     \<longleftrightarrow> (0 \<le> r + dr \<and> r + dr < height \<and> 0 \<le> c + dc \<and> c + dc < width)"
proof -
  let ?n = "(r * width + c) + (dr * width + dc)"
  have n: "?n = (r + dr) * width + (c + dc)"
    by (simp add: algebra_simps)
  have m0: "(r * width + c) mod width = c" using c by simp
  have d0: "(r * width + c) div width = r" using c by simp
  consider "c + dc = - 1" | "c + dc = width" | "0 \<le> c + dc" "c + dc < width"
    using c dc by linarith
  then show ?thesis
  proof cases
    case 1
    then have c0: "c = 0" using c dc by linarith
    have "?n mod width = (- 1) mod width"
      unfolding n 1 by (rule mod_mult_self3)
    also have "\<dots> = width - 1" using w by (simp add: zmod_minus1)
    finally have nm: "?n mod width = width - 1" .
    have "\<not> \<bar>(width - 1) - c\<bar> \<le> 1" using c0 w by simp
    then have "\<not> \<bar>?n mod width - (r * width + c) mod width\<bar> \<le> 1"
      unfolding m0 nm .
    then have "\<not> grid_neighbor width height (r * width + c) ?n"
      unfolding grid_neighbor_def by blast
    moreover have "\<not> 0 \<le> c + dc" using 1 by simp
    ultimately show ?thesis by blast
  next
    case 2
    then have c1: "c = width - 1" using c dc by linarith
    have nm: "?n mod width = 0"
      unfolding n 2 by simp
    have "\<not> \<bar>0 - c\<bar> \<le> 1" using c1 w by simp
    then have "\<not> \<bar>?n mod width - (r * width + c) mod width\<bar> \<le> 1"
      unfolding m0 nm .
    then have "\<not> grid_neighbor width height (r * width + c) ?n"
      unfolding grid_neighbor_def by blast
    moreover have "\<not> c + dc < width" using 2 by simp
    ultimately show ?thesis by blast
  next
    case 3
    have nm: "?n mod width = c + dc" unfolding n using 3 by simp
    have nd: "?n div width = r + dr" unfolding n using 3 by simp
    have "\<bar>(c + dc) - c\<bar> \<le> 1" using dc by linarith
    then have col: "\<bar>?n mod width - (r * width + c) mod width\<bar> \<le> 1"
      unfolding m0 nm .
    have "\<bar>(r + dr) - r\<bar> \<le> 1" using dr by linarith
    then have row: "\<bar>?n div width - (r * width + c) div width\<bar> \<le> 1"
      unfolding d0 nd .
    have ne: "?n \<noteq> r * width + c"
    proof
      assume "?n = r * width + c"
      then have "?n mod width = (r * width + c) mod width" "?n div width = (r * width + c) div width"
        by simp_all
      then have "c + dc = c" "r + dr = r" unfolding m0 nm d0 nd by simp_all
      with nz show False by simp
    qed
    have "(0 \<le> (r + dr) * width + (c + dc) \<and> (r + dr) * width + (c + dc) < width * height)
       \<longleftrightarrow> (0 \<le> r + dr \<and> r + dr < height)"
      using 3 w by (intro range_iff) simp_all
    then have "(0 \<le> ?n \<and> ?n < width * height) \<longleftrightarrow> (0 \<le> r + dr \<and> r + dr < height)"
      unfolding n .
    with col row ne 3 show ?thesis unfolding grid_neighbor_def by blast
  qed
qed

lemma adjacency_offsets_dirs:
  "adjacency_offsets width = map (\<lambda>(dr, dc). dr * width + dc) dirs"
  by (simp add: adjacency_offsets_def dirs_def)

lemma dirs_props:
  "(dr, dc) \<in> set dirs \<Longrightarrow>
     (dr = - 1 \<or> dr = 0 \<or> dr = 1) \<and> (dc = - 1 \<or> dc = 0 \<or> dc = 1) \<and> (dr \<noteq> 0 \<or> dc \<noteq> 0)"
  by (auto simp: dirs_def)

lemma adjacency_offsets_nth:
  assumes "k < 8"
  shows "\<exists>dr dc. adjacency_offsets width ! k = dr * width + dc \<and>
     (dr = - 1 \<or> dr = 0 \<or> dr = 1) \<and> (dc = - 1 \<or> dc = 0 \<or> dc = 1) \<and> (dr \<noteq> 0 \<or> dc \<noteq> 0)"
proof -
  have k: "k < length dirs" using assms by (simp add: dirs_def)
  obtain dr dc where d: "dirs ! k = (dr, dc)" by (cases "dirs ! k")
  then have "(dr, dc) \<in> set dirs" using k nth_mem by metis
  from dirs_props [OF this] d k show ?thesis
    unfolding adjacency_offsets_dirs by (auto simp: nth_map)
qed

lemma cell_decomp: "0 < (width::int) \<Longrightarrow>
   cell = (cell div width) * width + cell mod width \<and> 0 \<le> cell mod width \<and> cell mod width < width"
  by simp

lemma checks_iff_grid_neighbor:
  assumes w: "3 \<le> width" and k: "k < 8"
  shows "(0 \<le> cell + adjacency_offsets width ! k \<and>
           cell + adjacency_offsets width ! k < width * height \<and>
           \<bar>cell mod width - (cell + adjacency_offsets width ! k) mod width\<bar> \<le> 1)
     \<longleftrightarrow> grid_neighbor width height cell (cell + adjacency_offsets width ! k)"
proof -
  from adjacency_offsets_nth [OF k, of width]
  obtain dr dc where o: "adjacency_offsets width ! k = dr * width + dc"
    and d: "dr = - 1 \<or> dr = 0 \<or> dr = 1" "dc = - 1 \<or> dc = 0 \<or> dc = 1" "dr \<noteq> 0 \<or> dc \<noteq> 0"
    by blast
  let ?r = "cell div width" and ?c = "cell mod width"
  have w0: "0 < width" using w by simp
  have cd: "cell = ?r * width + ?c" and c: "0 \<le> ?c" "?c < width"
    using cell_decomp [OF w0, of cell] by simp_all
  have a: "(0 \<le> (?r * width + ?c) + (dr * width + dc) \<and>
          (?r * width + ?c) + (dr * width + dc) < width * height \<and>
          \<bar>(?r * width + ?c) mod width - ((?r * width + ?c) + (dr * width + dc)) mod width\<bar> \<le> 1)
     \<longleftrightarrow> (0 \<le> ?r + dr \<and> ?r + dr < height \<and> 0 \<le> ?c + dc \<and> ?c + dc < width)"
    by (rule cand_check [OF w c d(1,2)])
  have b: "grid_neighbor width height (?r * width + ?c) ((?r * width + ?c) + (dr * width + dc))
     \<longleftrightarrow> (0 \<le> ?r + dr \<and> ?r + dr < height \<and> 0 \<le> ?c + dc \<and> ?c + dc < width)"
    by (rule grid_neighbor_cand [OF w c d])
  from a b show ?thesis unfolding o cd [symmetric] by blast
qed

lemma grid_neighbor_offset:
  assumes w: "0 < width" and g: "grid_neighbor width height cell n"
  shows "n - cell \<in> set (adjacency_offsets width)"
proof -
  let ?dr = "n div width - cell div width" and ?dc = "n mod width - cell mod width"
  have "n = (n div width) * width + n mod width" "cell = (cell div width) * width + cell mod width"
    by simp_all
  then have "n - cell = ((n div width) * width + n mod width) - ((cell div width) * width + cell mod width)"
    by simp
  then have e: "n - cell = ?dr * width + ?dc" by (simp only: algebra_simps)
  from g have r: "?dr = - 1 \<or> ?dr = 0 \<or> ?dr = 1" and c: "?dc = - 1 \<or> ?dc = 0 \<or> ?dc = 1"
    and ne: "n \<noteq> cell"
    unfolding grid_neighbor_def by linarith+
  have nz: "?dr \<noteq> 0 \<or> ?dc \<noteq> 0" using e ne by auto
  from r c nz show ?thesis unfolding e adjacency_offsets_def by auto
qed

lemma count_independent:
  assumes w: "0 < width" and c: "0 \<le> cell" and m: "0 \<le> m"
    and len: "length prev = nat (width * height)"
    and no: "\<And>off. off \<in> set (adjacency_offsets width) \<Longrightarrow> cell + off = m \<Longrightarrow>
        \<not> \<bar>cell mod width - m mod width\<bar> \<le> 1"
  shows "alive_adj_cells (prev[nat m := v]) (adjacency_offsets width) width height cell =
         alive_adj_cells prev (adjacency_offsets width) width height cell"
proof -
  have len': "length (prev[nat m := v]) = nat (width * height)" using len by simp
  have "filter (\<lambda>off. 0 \<le> cell + off \<and> cell + off < width * height \<and>
              \<bar>cell mod width - (cell + off) mod width\<bar> \<le> 1 \<and> prev[nat m := v] ! nat (cell + off))
          (adjacency_offsets width) =
        filter (\<lambda>off. 0 \<le> cell + off \<and> cell + off < width * height \<and>
              \<bar>cell mod width - (cell + off) mod width\<bar> \<le> 1 \<and> prev ! nat (cell + off))
          (adjacency_offsets width)"
  proof (rule filter_cong [OF refl])
    fix off assume o: "off \<in> set (adjacency_offsets width)"
    show "(0 \<le> cell + off \<and> cell + off < width * height \<and>
              \<bar>cell mod width - (cell + off) mod width\<bar> \<le> 1 \<and> prev[nat m := v] ! nat (cell + off))
       = (0 \<le> cell + off \<and> cell + off < width * height \<and>
              \<bar>cell mod width - (cell + off) mod width\<bar> \<le> 1 \<and> prev ! nat (cell + off))"
    proof (cases "cell + off = m")
      case True
      with no [OF o] show ?thesis by simp
    next
      case False
      show ?thesis
      proof (cases "0 \<le> cell + off")
        case True
        then have "nat (cell + off) \<noteq> nat m" using False m by (auto simp: nat_eq_iff)
        then show ?thesis by simp
      next
        case False
        then show ?thesis by simp
      qed
    qed
  qed
  then show ?thesis
    unfolding alive_adj_cells_eq [OF len w c] alive_adj_cells_eq [OF len' w c] by simp
qed

lemma no_wrap_right:
  assumes w: "3 \<le> width" and r: "0 \<le> r"
    and len: "length prev = nat (width * height)"
  shows "alive_adj_cells (prev[nat (r * width) := v]) (adjacency_offsets width) width height
           (r * width + (width - 1)) =
         alive_adj_cells prev (adjacency_offsets width) width height (r * width + (width - 1))"
proof (rule count_independent [OF _ _ _ len])
  show "0 < width" using w by simp
  show "0 \<le> r * width + (width - 1)" using w r by simp
  show "0 \<le> r * width" using w r by simp
next
  fix off
  have "(r * width + (width - 1)) mod width = width - 1" using w by (simp add: zmod_minus1)
  moreover have "(r * width) mod width = 0" by simp
  ultimately show "\<not> \<bar>(r * width + (width - 1)) mod width - (r * width) mod width\<bar> \<le> 1"
    using w by simp
qed

lemma no_wrap_left:
  assumes w: "3 \<le> width" and r: "0 \<le> r"
    and len: "length prev = nat (width * height)"
  shows "alive_adj_cells (prev[nat (r * width + (width - 1)) := v]) (adjacency_offsets width)
           width height (r * width) =
         alive_adj_cells prev (adjacency_offsets width) width height (r * width)"
proof (rule count_independent [OF _ _ _ len])
  show "0 < width" using w by simp
  show "0 \<le> r * width" using w r by simp
  show "0 \<le> r * width + (width - 1)" using w r by simp
next
  fix off
  have "(r * width + (width - 1)) mod width = width - 1" using w by (simp add: zmod_minus1)
  moreover have "(r * width) mod width = 0" by simp
  ultimately show "\<not> \<bar>(r * width) mod width - (r * width + (width - 1)) mod width\<bar> \<le> 1"
    using w by simp
qed

lemma length_grid_of: "length (grid_of g width height) = nat (width * height)"
  by (simp add: grid_of_def)

lemma grid_of_nth:
  assumes w: "0 < width" and r: "0 \<le> r" "r < height" and c: "0 \<le> c" "c < width"
  shows "grid_of g width height ! nat (r * width + c) = g r c"
proof -
  from range_iff [OF w c, of r height] r
  have n: "0 \<le> r * width + c" "r * width + c < width * height" by simp_all
  then have "nat (r * width + c) < nat (width * height)" by simp
  then have "grid_of g width height ! nat (r * width + c) =
     g (int (nat (r * width + c)) div width) (int (nat (r * width + c)) mod width)"
    unfolding grid_of_def by simp
  also have "int (nat (r * width + c)) = r * width + c" using n by simp
  also have "(r * width + c) div width = r" using c by simp
  also have "(r * width + c) mod width = c" using c by simp
  finally show ?thesis .
qed

lemma liveNeighbors_grid_of:
  assumes w: "3 \<le> width" and r: "0 \<le> r" "r < height" and c: "0 \<le> c" "c < width"
  shows "liveNeighbors (r * width + c) (grid_of g width height) width height =
     length (filter (\<lambda>(dr, dc). 0 \<le> r + dr \<and> r + dr < height \<and> 0 \<le> c + dc \<and> c + dc < width \<and>
                       g (r + dr) (c + dc)) dirs)"
proof -
  let ?cell = "r * width + c"
  let ?P = "\<lambda>off. 0 \<le> ?cell + off \<and> ?cell + off < width * height \<and>
              \<bar>?cell mod width - (?cell + off) mod width\<bar> \<le> 1 \<and>
              grid_of g width height ! nat (?cell + off)"
  let ?f = "\<lambda>(dr, dc). dr * width + dc"
  have w0: "0 < width" using w by simp
  have "liveNeighbors ?cell (grid_of g width height) width height
      = length (filter ?P (adjacency_offsets width))"
    by (simp add: liveNeighbors_def adjacency_offsets_def)
  also have "\<dots> = length (filter (?P \<circ> ?f) dirs)"
    unfolding adjacency_offsets_dirs filter_map by simp
  also have "filter (?P \<circ> ?f) dirs =
     filter (\<lambda>(dr, dc). 0 \<le> r + dr \<and> r + dr < height \<and> 0 \<le> c + dc \<and> c + dc < width \<and>
                       g (r + dr) (c + dc)) dirs"
  proof (rule filter_cong [OF refl])
    fix x assume x: "x \<in> set dirs"
    obtain dr dc where e: "x = (dr, dc)" by (cases x)
    from dirs_props [of dr dc] x e
    have d: "dr = - 1 \<or> dr = 0 \<or> dr = 1" "dc = - 1 \<or> dc = 0 \<or> dc = 1" by simp_all
    have n: "?cell + (dr * width + dc) = (r + dr) * width + (c + dc)" by (simp add: algebra_simps)
    have cc: "(0 \<le> ?cell + (dr * width + dc) \<and> ?cell + (dr * width + dc) < width * height \<and>
          \<bar>?cell mod width - (?cell + (dr * width + dc)) mod width\<bar> \<le> 1)
       \<longleftrightarrow> (0 \<le> r + dr \<and> r + dr < height \<and> 0 \<le> c + dc \<and> c + dc < width)"
      by (rule cand_check [OF w c d])
    have gg: "grid_of g width height ! nat (?cell + (dr * width + dc)) = g (r + dr) (c + dc)"
      if "0 \<le> r + dr \<and> r + dr < height \<and> 0 \<le> c + dc \<and> c + dc < width"
      unfolding n using grid_of_nth [OF w0, of "r + dr" height "c + dc" g] that by simp
    have "?P (dr * width + dc) = (0 \<le> r + dr \<and> r + dr < height \<and>
         0 \<le> c + dc \<and> c + dc < width \<and> g (r + dr) (c + dc))"
      using cc gg by blast
    then show "(?P \<circ> ?f) x = (case x of (dr, dc) \<Rightarrow> 0 \<le> r + dr \<and> r + dr < height \<and>
         0 \<le> c + dc \<and> c + dc < width \<and> g (r + dr) (c + dc))"
      by (simp only: e comp_def prod.case)
  qed
  finally show ?thesis .
qed

lemma nextState_grid_of:
  assumes w: "3 \<le> width" and r: "0 \<le> r" "r < height" and c: "0 \<le> c" "c < width"
  shows "nextState (r * width + c) (grid_of g width height) width height =
     (let k = length (filter (\<lambda>(dr, dc). 0 \<le> r + dr \<and> r + dr < height \<and> 0 \<le> c + dc \<and>
                       c + dc < width \<and> g (r + dr) (c + dc)) dirs)
      in if g r c then k = 2 \<or> k = 3 else k = 3)"
proof -
  have w0: "0 < width" using w by simp
  have "0 \<le> r * width + c" using range_iff [OF w0 c, of r height] r by simp
  then show ?thesis
    unfolding nextState_def liveNeighbors_grid_of [OF assms] Let_def
    using grid_of_nth [OF w0 r c, of g] by simp
qed

lemma count_row:
  "(if a = 0 \<and> \<bar>b\<bar> \<le> 1
    then length (filter (\<lambda>(dr, dc). a + dr = 0 \<and> \<bar>b + dc\<bar> \<le> 1) dirs) = 2 \<or>
         length (filter (\<lambda>(dr, dc). a + dr = 0 \<and> \<bar>b + dc\<bar> \<le> 1) dirs) = 3
    else length (filter (\<lambda>(dr, dc). a + dr = 0 \<and> \<bar>b + dc\<bar> \<le> 1) dirs) = 3)
   = (b = 0 \<and> \<bar>a\<bar> \<le> (1::int))"
proof -
  consider "a = - 1" | "a = 0" | "a = 1" | "a < - 1 \<or> 1 < a" by linarith
  then show ?thesis
  proof cases
    case 1
    consider "b = - 2" | "b = - 1" | "b = 0" | "b = 1" | "b = 2" | "b < - 2 \<or> 2 < b" by linarith
    then show ?thesis using 1 by cases (auto simp: dirs_def)
  next
    case 2
    consider "b = - 2" | "b = - 1" | "b = 0" | "b = 1" | "b = 2" | "b < - 2 \<or> 2 < b" by linarith
    then show ?thesis using 2 by cases (auto simp: dirs_def)
  next
    case 3
    consider "b = - 2" | "b = - 1" | "b = 0" | "b = 1" | "b = 2" | "b < - 2 \<or> 2 < b" by linarith
    then show ?thesis using 3 by cases (auto simp: dirs_def)
  next
    case 4
    then show ?thesis by (auto simp: dirs_def)
  qed
qed

lemma count_col:
  "(if b = 0 \<and> \<bar>a\<bar> \<le> 1
    then length (filter (\<lambda>(dr, dc). b + dc = 0 \<and> \<bar>a + dr\<bar> \<le> 1) dirs) = 2 \<or>
         length (filter (\<lambda>(dr, dc). b + dc = 0 \<and> \<bar>a + dr\<bar> \<le> 1) dirs) = 3
    else length (filter (\<lambda>(dr, dc). b + dc = 0 \<and> \<bar>a + dr\<bar> \<le> 1) dirs) = 3)
   = (a = 0 \<and> \<bar>b\<bar> \<le> (1::int))"
proof -
  consider "b = - 1" | "b = 0" | "b = 1" | "b < - 1 \<or> 1 < b" by linarith
  then show ?thesis
  proof cases
    case 1
    consider "a = - 2" | "a = - 1" | "a = 0" | "a = 1" | "a = 2" | "a < - 2 \<or> 2 < a" by linarith
    then show ?thesis using 1 by cases (auto simp: dirs_def)
  next
    case 2
    consider "a = - 2" | "a = - 1" | "a = 0" | "a = 1" | "a = 2" | "a < - 2 \<or> 2 < a" by linarith
    then show ?thesis using 2 by cases (auto simp: dirs_def)
  next
    case 3
    consider "a = - 2" | "a = - 1" | "a = 0" | "a = 1" | "a = 2" | "a < - 2 \<or> 2 < a" by linarith
    then show ?thesis using 3 by cases (auto simp: dirs_def)
  next
    case 4
    then show ?thesis by (auto simp: dirs_def)
  qed
qed

lemma blinker_step_h:
  assumes R: "1 \<le> R" "R + 1 < height" and C: "1 \<le> C" "C + 1 < width"
    and r: "0 \<le> r" "r < height" and c: "0 \<le> c" "c < width"
  shows "nextState (r * width + c) (grid_of (horizontal_blinker R C) width height) width height
     = vertical_blinker R C r c"
proof -
  have w: "3 \<le> width" using C by simp
  have p: "(\<lambda>(dr, dc). 0 \<le> r + dr \<and> r + dr < height \<and> 0 \<le> c + dc \<and> c + dc < width \<and>
              horizontal_blinker R C (r + dr) (c + dc))
     = (\<lambda>(dr, dc). (r - R) + dr = 0 \<and> \<bar>(c - C) + dc\<bar> \<le> 1)"
    using R C by (auto simp: horizontal_blinker_def fun_eq_iff)
  have l: "horizontal_blinker R C r c = (r - R = 0 \<and> \<bar>c - C\<bar> \<le> 1)"
    by (auto simp: horizontal_blinker_def)
  have v: "vertical_blinker R C r c = (c - C = 0 \<and> \<bar>r - R\<bar> \<le> 1)"
    by (auto simp: vertical_blinker_def)
  show ?thesis
    unfolding nextState_grid_of [OF w r c] Let_def p l v by (rule count_row)
qed

lemma blinker_step_v:
  assumes R: "1 \<le> R" "R + 1 < height" and C: "1 \<le> C" "C + 1 < width"
    and r: "0 \<le> r" "r < height" and c: "0 \<le> c" "c < width"
  shows "nextState (r * width + c) (grid_of (vertical_blinker R C) width height) width height
     = horizontal_blinker R C r c"
proof -
  have w: "3 \<le> width" using C by simp
  have p: "(\<lambda>(dr, dc). 0 \<le> r + dr \<and> r + dr < height \<and> 0 \<le> c + dc \<and> c + dc < width \<and>
              vertical_blinker R C (r + dr) (c + dc))
     = (\<lambda>(dr, dc). (c - C) + dc = 0 \<and> \<bar>(r - R) + dr\<bar> \<le> 1)"
    using R C by (auto simp: vertical_blinker_def fun_eq_iff)
  have l: "vertical_blinker R C r c = (c - C = 0 \<and> \<bar>r - R\<bar> \<le> 1)"
    by (auto simp: vertical_blinker_def)
  have v: "horizontal_blinker R C r c = (r - R = 0 \<and> \<bar>c - C\<bar> \<le> 1)"
    by (auto simp: horizontal_blinker_def)
  show ?thesis
    unfolding nextState_grid_of [OF w r c] Let_def p l v by (rule count_col)
qed

lemma grid_eqI:
  assumes w: "0 < width" and len: "length xs = nat (width * height)"
    and nth: "\<And>r c. 0 \<le> r \<Longrightarrow> r < height \<Longrightarrow> 0 \<le> c \<Longrightarrow> c < width \<Longrightarrow>
        xs ! nat (r * width + c) = g r c"
  shows "xs = grid_of g width height"
proof (rule nth_equalityI)
  show "length xs = length (grid_of g width height)" using len by (simp add: length_grid_of)
next
  fix i assume i: "i < length xs"
  let ?r = "int i div width" and ?c = "int i mod width"
  have d: "int i = ?r * width + ?c" and c: "0 \<le> ?c" "?c < width"
    using cell_decomp [OF w, of "int i"] by simp_all
  have "0 \<le> ?r * width + ?c \<and> ?r * width + ?c < width * height"
    using i len d by linarith
  then have r: "0 \<le> ?r" "?r < height" using range_iff [OF w c, of ?r height] by simp_all
  have "xs ! nat (?r * width + ?c) = g ?r ?c" by (rule nth [OF r c])
  moreover have "grid_of g width height ! nat (?r * width + ?c) = g ?r ?c"
    by (rule grid_of_nth [OF w r c])
  moreover have "nat (?r * width + ?c) = i" using d by linarith
  ultimately show "xs ! i = grid_of g width height ! i" by simp
qed

lemma generation_grid_of:
  assumes w: "0 < width" and h: "0 < height" and ws: "1 \<le> world_size"
    and ln: "length new = nat (width * height)"
    and lw: "\<And>p. 1 \<le> p \<Longrightarrow> p < nat world_size \<Longrightarrow>
          length (fst (worker_bufs p)) = nat (width * height) \<and>
          length (snd (worker_bufs p)) = nat (width * height)"
    and pd: "proc_data_init width height world_size = Some pd"
    and step: "\<And>r c. 0 \<le> r \<Longrightarrow> r < height \<Longrightarrow> 0 \<le> c \<Longrightarrow> c < width \<Longrightarrow>
        nextState (r * width + c) (grid_of g width height) width height = g' r c"
  shows "generation pd world_size (grid_of g width height) new worker_bufs
           (adjacency_offsets width) width height
         = Some (grid_of g' width height, grid_of g width height)"
proof -
  from generation_refines [of width height world_size "grid_of g width height" new worker_bufs pd]
    w h ws length_grid_of [of g width height] ln lw pd
  obtain merged where m: "generation pd world_size (grid_of g width height) new worker_bufs
           (adjacency_offsets width) width height = Some (merged, grid_of g width height)"
    and lm: "length merged = nat (width * height)"
    and nm: "\<And>i. 0 \<le> i \<Longrightarrow> i < width * height \<Longrightarrow>
        merged ! nat i = nextState i (grid_of g width height) width height"
    by blast
  have "merged = grid_of g' width height"
  proof (rule grid_eqI [OF w lm])
    fix r c assume rc: "0 \<le> r" "r < height" "0 \<le> c" "c < width"
    have "0 \<le> r * width + c \<and> r * width + c < width * height"
      using range_iff [OF w rc(3,4), of r height] rc by simp
    then have "merged ! nat (r * width + c) =
       nextState (r * width + c) (grid_of g width height) width height"
      using nm by simp
    then show "merged ! nat (r * width + c) = g' r c" using step [OF rc] by simp
  qed
  with m show ?thesis by simp
qed

lemma count_true_update:
  assumes "i < length f" and "\<not> f ! i"
  shows "length (filter id (f[i := True])) = Suc (length (filter id f))"
proof -
  have a: "f = take i f @ f ! i # drop (Suc i) f" using assms(1) by (rule id_take_nth_drop)
  have b: "f[i := True] = take i f @ True # drop (Suc i) f" using assms(1) by (rule upd_conv_take_nth_drop)
  have "length (filter id f) = length (filter id (take i f)) + length (filter id (drop (Suc i) f))"
    by (subst a) (simp add: assms(2))
  moreover have "length (filter id (f[i := True]))
      = length (filter id (take i f)) + Suc (length (filter id (drop (Suc i) f)))"
    unfolding b by simp
  ultimately show ?thesis by simp
qed

lemma smod_less: "0 < (n::int) \<Longrightarrow> x smod n < n"
proof -
  assume n: "0 < n"
  have a: "0 \<le> \<bar>x\<bar> mod n" "\<bar>x\<bar> mod n < n" using n by simp_all
  consider "x < 0" | "x = 0" | "0 < x" by linarith
  then show ?thesis
  proof cases
    case 1
    then have "x smod n = - (\<bar>x\<bar> mod n)" using n by (simp add: smod_int_alt_def)
    with a n show ?thesis by linarith
  next
    case 2
    then show ?thesis using n by (simp add: smod_int_alt_def)
  next
    case 3
    then have "x smod n = \<bar>x\<bar> mod n" using n by (simp add: smod_int_alt_def)
    with a show ?thesis by linarith
  qed
qed

lemma c_int_id: "- 2147483648 \<le> x \<Longrightarrow> x \<le> 2147483647 \<Longrightarrow> c_int x = x"
  by (simp add: c_int_def)

lemma fill_exact:
  assumes n: "0 \<le> width * height" and l: "0 \<le> live_cells" "live_cells < width * height"
    and rng: "width * height \<le> 2147483647"
  shows "\<exists>field. fill_game_field draws (replicate (nat (width * height)) False) width height live_cells
            = Some field \<and> length field = nat (width * height) \<and>
            int (length (filter id field)) = live_cells"
proof -
  let ?N = "width * height"
  define P where "P = (\<lambda>(i::nat) (f, ctg, k::nat). length f = nat ?N \<and> 0 \<le> ctg \<and>
      (ctg \<le> ?N - int i - 1 \<or> ctg = 0) \<and> int (length (filter id f)) + ctg = live_cells \<and>
      (\<forall>j. i \<le> j \<and> j < nat ?N \<longrightarrow> \<not> f ! j))"
  have "\<exists>s'. for_loop (nat ?N) (fill_game_field_step draws (width * height) live_cells)
         (replicate (nat ?N) False, live_cells, 0) = Some s' \<and> P (nat ?N) s'"
  proof (rule for_loop_total [where P = P])
    show "P 0 (replicate (nat ?N) False, live_cells, 0)" using l by (simp add: P_def)
  next
    fix i t
    assume i: "i < nat ?N" and P: "P i t"
    obtain f ctg k where t: "t = (f, ctg, k)" by (cases t)
    from P t have lf: "length f = nat ?N" and c0: "0 \<le> ctg"
      and cb: "ctg \<le> ?N - int i - 1 \<or> ctg = 0"
      and cnt: "int (length (filter id f)) + ctg = live_cells"
      and rest: "\<And>j. i \<le> j \<Longrightarrow> j < nat ?N \<Longrightarrow> \<not> f ! j"
      by (auto simp: P_def)
    have wri: "wr f (int i) True = Some (f[i := True])" using i lf by (auto simp: wr_def)
    have cu: "int (length (filter id (f[i := True]))) = int (length (filter id f)) + 1"
      using count_true_update [of i f] i lf rest [of i] by simp
    have up: "P (Suc i) (f[i := True], ctg - 1, k')" if "0 < ctg" for k'
      using that lf cb cnt cu rest by (auto simp: P_def)
    have same: "P (Suc i) (f, ctg, k')" if "ctg = 0 \<or> ?N - (int i + 1) \<noteq> ctg" for k'
      using that lf c0 cb cnt rest by (auto simp: P_def)
    show "\<exists>u. fill_game_field_step draws (width * height) live_cells i t = Some u \<and> P (Suc i) u"
      unfolding t fill_game_field_step_def using wri up same c0
      by auto
  qed
  then obtain f ctg k where
    r: "for_loop (nat ?N) (fill_game_field_step draws (width * height) live_cells)
         (replicate (nat ?N) False, live_cells, 0) = Some (f, ctg, k)"
    and P: "P (nat ?N) (f, ctg, k)" by auto
  from P n have "ctg = 0" by (auto simp: P_def)
  moreover have "c_int (width * height) = width * height" using n rng by (intro c_int_id) simp_all
  ultimately show ?thesis using P r unfolding fill_game_field_def by (simp add: P_def)
qed

lemma fill_all:
  assumes n: "0 < width * height" and l: "width * height \<le> live_cells"
    and rng: "width * height \<le> 2147483647"
  shows "\<exists>field. fill_game_field draws (replicate (nat (width * height)) False) width height live_cells
            = Some field \<and> length field = nat (width * height) \<and>
            (\<forall>j < nat (width * height). field ! j)"
proof -
  let ?N = "width * height"
  define P where "P = (\<lambda>(i::nat) (f, ctg, k::nat). length f = nat ?N \<and>
      ctg = live_cells - int i \<and> (\<forall>j < i. f ! j))"
  have "\<exists>s'. for_loop (nat ?N) (fill_game_field_step draws (width * height) live_cells)
         (replicate (nat ?N) False, live_cells, 0) = Some s' \<and> P (nat ?N) s'"
  proof (rule for_loop_total [where P = P])
    show "P 0 (replicate (nat ?N) False, live_cells, 0)" by (simp add: P_def)
  next
    fix i t
    assume i: "i < nat ?N" and P: "P i t"
    obtain f ctg k where t: "t = (f, ctg, k)" by (cases t)
    from P t have lf: "length f = nat ?N" and c: "ctg = live_cells - int i"
      and dn: "\<And>j. j < i \<Longrightarrow> f ! j"
      by (auto simp: P_def)
    have pos: "0 < ctg" using c i l by linarith
    have wri: "wr f (int i) True = Some (f[i := True])" using i lf by (auto simp: wr_def)
    have hit: "draws k smod ?N < live_cells" using smod_less [OF n, of "draws k"] l by linarith
    have up: "P (Suc i) (f[i := True], ctg - 1, k')" for k'
      using lf c dn i by (auto simp: P_def nth_list_update less_Suc_eq)
    show "\<exists>u. fill_game_field_step draws (width * height) live_cells i t = Some u \<and> P (Suc i) u"
      unfolding t fill_game_field_step_def using wri up pos hit by auto
  qed
  then obtain f ctg k where
    r: "for_loop (nat ?N) (fill_game_field_step draws (width * height) live_cells)
         (replicate (nat ?N) False, live_cells, 0) = Some (f, ctg, k)"
    and P: "P (nat ?N) (f, ctg, k)" by auto
  moreover have "c_int (width * height) = width * height" using n rng by (intro c_int_id) simp_all
  ultimately show ?thesis unfolding fill_game_field_def by (simp add: P_def)
qed



section \<open>Partitioning\<close>

text \<open>
  Claim C2. For a grid of at least one cell, the number of cells \<open>total = width * height\<close>
  being an \<open>int\<close> (at most \<open>2^31 - 1\<close>), and at least one process, the partition table that
  main computes has exactly \<open>world_size\<close> entries; every process before the last gets
  \<open>{offset = i * base, count = base}\<close> with \<open>base = floor(total / world_size)\<close>, the
  last gets \<open>{offset = base * (world_size - 1), count = base + total mod world_size}\<close>; the
  ranges are contiguous (the first starts at 0, each starts where the one before ends, the last
  ends at \<open>total\<close>), they have non-negative counts and do not overlap, and the counts sum to
  \<open>total\<close>.
\<close>

theorem partition_coverage:
  assumes tot: "1 \<le> width * height" and rng: "width * height \<le> 2147483647"
    and ws: "1 \<le> world_size"
  shows "\<exists>pd. proc_data_init width height world_size = Some pd \<and>
     length pd = nat world_size \<and>
     (\<forall>i. 0 \<le> i \<and> i < world_size - 1 \<longrightarrow>
        pd ! nat i = \<lparr>offset = i * ((width * height) div world_size),
                       num_cells = (width * height) div world_size\<rparr>) \<and>
     pd ! nat (world_size - 1) =
        \<lparr>offset = ((width * height) div world_size) * (world_size - 1),
         num_cells = (width * height) div world_size + (width * height) mod world_size\<rparr> \<and>
     offset (pd ! 0) = 0 \<and>
     (\<forall>i. Suc i < nat world_size \<longrightarrow>
        offset (pd ! Suc i) = offset (pd ! i) + num_cells (pd ! i)) \<and>
     offset (pd ! nat (world_size - 1)) + num_cells (pd ! nat (world_size - 1)) = width * height \<and>
     (\<forall>i < nat world_size. 0 \<le> num_cells (pd ! i)) \<and>
     (\<forall>i j. i < j \<and> j < nat world_size \<longrightarrow>
        offset (pd ! i) + num_cells (pd ! i) \<le> offset (pd ! j)) \<and>
     (\<Sum>p\<leftarrow>pd. num_cells p) = width * height"
  using proc_data_init_props [OF tot ws] .

theorem partition_coverage_witness:
  "\<exists>pd. proc_data_init 5 5 3 = Some pd \<and> length pd = 3 \<and>
      pd ! 0 = \<lparr>offset = 0, num_cells = 8\<rparr> \<and> pd ! 2 = \<lparr>offset = 16, num_cells = 9\<rparr> \<and>
      (\<Sum>p\<leftarrow>pd. num_cells p) = 25"
proof -
  have h1: "1 \<le> (5::int) * 5" and hr: "(5::int) * 5 \<le> 2147483647" and h2: "1 \<le> (3::int)"
    by simp_all
  from partition_coverage [OF h1 hr h2]
  obtain pd where "proc_data_init 5 5 3 = Some pd" "length pd = nat 3"
    "\<forall>i. 0 \<le> i \<and> i < 3 - 1 \<longrightarrow>
        pd ! nat i = \<lparr>offset = i * ((5 * 5) div 3), num_cells = (5 * 5) div 3\<rparr>"
    "pd ! nat (3 - 1) = \<lparr>offset = ((5 * 5) div 3) * (3 - 1),
         num_cells = (5 * 5) div 3 + (5 * 5) mod 3\<rparr>"
    "(\<Sum>p\<leftarrow>pd. num_cells p) = 5 * 5"
    by blast
  then have "proc_data_init 5 5 3 = Some pd \<and> length pd = 3 \<and>
      pd ! 0 = \<lparr>offset = 0, num_cells = 8\<rparr> \<and> pd ! 2 = \<lparr>offset = 16, num_cells = 9\<rparr> \<and>
      (\<Sum>p\<leftarrow>pd. num_cells p) = 25"
    by (auto dest: spec [of _ 0])
  then show ?thesis by blast
qed

section \<open>Rule engine\<close>

text \<open>
  Claim C3. For a grid of positive width and a cell index of the grid, the inner loop of
  apply_rules counts the entries of the offset table whose candidate index
  \<open>n = cell + offset\<close> has \<open>0 \<le> n < width * height\<close>,
  \<open>abs((cell mod width) - (n mod width)) \<le> 1\<close> and \<open>prev[n] = true\<close>, and the cell
  written to the new grid is live iff the cell was live and the count is 2 or 3, or the cell
  was dead and the count is exactly 3. (A cell index exists only when the height is positive
  too.)
\<close>

theorem rule_engine_count_and_rule:
  assumes "0 < width" and "length prev = nat (width * height)"
    and "length new = nat (width * height)" and "0 \<le> cell" and "cell < width * height"
  shows "\<exists>k. k = length (filter
             (\<lambda>off. 0 \<le> cell + off \<and> cell + off < width * height \<and>
                    \<bar>cell mod width - (cell + off) mod width\<bar> \<le> 1 \<and> prev ! nat (cell + off))
             (adjacency_offsets width)) \<and>
     alive_adj_cells prev (adjacency_offsets width) width height cell = Some (int k) \<and>
     apply_rules_cell prev new (adjacency_offsets width) width height cell =
       Some (new[nat cell := (if prev ! nat cell then k = 2 \<or> k = 3 else k = 3)])"
  using alive_adj_cells_eq [OF assms(2) assms(1) assms(4)]
    apply_rules_cell_eq [OF assms(2) assms(1) assms(4) assms(5) assms(3)]
  by (simp add: nextState_def liveNeighbors_def adjacency_offsets_def)

theorem rule_engine_count_and_rule_witness:
  "alive_adj_cells [False, False, False, True, True, True, False, False, False]
     (adjacency_offsets 3) 3 3 4 = Some 2 \<and>
   apply_rules_cell [False, False, False, True, True, True, False, False, False]
     (replicate 9 False) (adjacency_offsets 3) 3 3 4 =
     Some [False, False, False, False, True, False, False, False, False]"
proof -
  let ?prev = "[False, False, False, True, True, True, False, False, False]"
  have h: "(0::int) < 3" "length ?prev = nat (3 * 3)" "length (replicate 9 False) = nat (3 * 3)"
    "(0::int) \<le> 4" "(4::int) < 3 * 3"
    by simp_all
  show ?thesis
    using rule_engine_count_and_rule [OF h]
    by (simp add: adjacency_offsets_def numeral_eq_Suc)
qed

text \<open>
  Claim C6. apply_rules writes only the cells of its own range: whenever it returns, the output
  buffer keeps its length and every cell at an index outside
  \<open>[offset, offset + num_cells)\<close> is the one that was there before. It does return when the
  range lies inside the grid and both buffers have the grid's size.
\<close>

theorem apply_rules_frame_effect:
  "(apply_rules proc_data prev new world_rank offs width height = Some new' \<and>
      rd proc_data world_rank = Some pi \<longrightarrow>
      length new' = length new \<and>
      (\<forall>j. \<not> (offset pi \<le> int j \<and> int j < offset pi + num_cells pi) \<longrightarrow> new' ! j = new ! j)) \<and>
   (rd proc_data world_rank = Some pi \<and> 0 < width \<and>
      length prev = nat (width * height) \<and> length new = nat (width * height) \<and>
      0 \<le> offset pi \<and> offset pi + num_cells pi \<le> width * height \<longrightarrow>
      (\<exists>r. apply_rules proc_data prev new world_rank (adjacency_offsets width) width height
             = Some r))"
proof (intro conjI impI)
  assume a: "apply_rules proc_data prev new world_rank offs width height = Some new' \<and>
      rd proc_data world_rank = Some pi"
  from apply_rules_frame [of proc_data prev new world_rank offs width height new' pi] a
  show "length new' = length new" by blast
  from apply_rules_frame [of proc_data prev new world_rank offs width height new' pi] a
  show "\<forall>j. \<not> (offset pi \<le> int j \<and> int j < offset pi + num_cells pi) \<longrightarrow> new' ! j = new ! j"
    by blast
next
  assume "rd proc_data world_rank = Some pi \<and> 0 < width \<and>
      length prev = nat (width * height) \<and> length new = nat (width * height) \<and>
      0 \<le> offset pi \<and> offset pi + num_cells pi \<le> width * height"
  then show "\<exists>r. apply_rules proc_data prev new world_rank (adjacency_offsets width) width height
             = Some r"
    using apply_rules_eq [of proc_data world_rank pi width prev height new] by blast
qed

theorem apply_rules_frame_effect_witness:
  "\<exists>r. apply_rules [\<lparr>offset = 0, num_cells = 4\<rparr>, \<lparr>offset = 4, num_cells = 5\<rparr>]
     [False, False, False, True, True, True, False, False, False]
     (replicate 9 True) 1 (adjacency_offsets 3) 3 3 = Some r \<and>
     length r = 9 \<and> r ! 0 = True \<and> r ! 1 = True \<and> r ! 2 = True \<and> r ! 3 = True"
proof -
  let ?pd = "[\<lparr>offset = 0, num_cells = 4\<rparr>, \<lparr>offset = 4, num_cells = 5\<rparr>]"
  let ?prev = "[False, False, False, True, True, True, False, False, False]"
  let ?pi = "\<lparr>offset = 4, num_cells = 5\<rparr>"
  have r: "rd ?pd 1 = Some ?pi" by (simp add: rd_def)
  have h: "rd ?pd 1 = Some ?pi \<and> (0::int) < 3 \<and>
      length ?prev = nat (3 * 3) \<and> length (replicate 9 True) = nat (3 * 3) \<and>
      0 \<le> offset ?pi \<and> offset ?pi + num_cells ?pi \<le> 3 * 3"
    using r by simp
  from apply_rules_frame_effect [of ?pd ?prev "replicate 9 True" 1 "adjacency_offsets 3" 3 3 _ ?pi] h
  obtain r where e: "apply_rules ?pd ?prev (replicate 9 True) 1 (adjacency_offsets 3) 3 3 = Some r"
    by blast
  from apply_rules_frame_effect [of ?pd ?prev "replicate 9 True" 1 "adjacency_offsets 3" 3 3 r ?pi] e r
  have f: "length r = length (replicate 9 True)"
      "\<forall>j. \<not> (offset ?pi \<le> int j \<and> int j < offset ?pi + num_cells ?pi) \<longrightarrow>
          r ! j = replicate 9 True ! j"
    by blast+
  have "r ! 0 = True" "r ! 1 = True" "r ! 2 = True" "r ! 3 = True"
    using f(2) [rule_format, of 0] f(2) [rule_format, of 1] f(2) [rule_format, of 2]
      f(2) [rule_format, of 3] by simp_all
  with e f(1) show ?thesis by simp
qed


section \<open>One generation\<close>

text \<open>
  Claim C1. For a grid of positive width and height and at least one process, whatever the
  controller's and the workers' output buffers held before, one generation (the controller
  applies the rules to its own range, every worker applies them to its range of its own buffer
  and sends that range back, the controller stores each answer at the worker's offset) returns,
  and every cell \<open>i\<close> of the merged grid is the specification's
  \<open>nextState(i, prev, width, height)\<close>. Every cell index lies in the range of exactly one
  process, so it is written by exactly one partial result. The second component of the result
  is the old grid: the two buffers have been swapped.
\<close>

theorem generation_refines_sequential:
  assumes "0 < width" and "0 < height" and "1 \<le> world_size"
    and "length prev = nat (width * height)" and "length new = nat (width * height)"
    and "\<forall>p. 1 \<le> p \<and> p < nat world_size \<longrightarrow>
          length (fst (worker_bufs p)) = nat (width * height) \<and>
          length (snd (worker_bufs p)) = nat (width * height)"
  shows "\<exists>pd merged. proc_data_init width height world_size = Some pd \<and>
      generation pd world_size prev new worker_bufs (adjacency_offsets width) width height
        = Some (merged, prev) \<and>
      length merged = nat (width * height) \<and>
      (\<forall>i. 0 \<le> i \<and> i < width * height \<longrightarrow> merged ! nat i = nextState i prev width height) \<and>
      (\<forall>i. 0 \<le> i \<and> i < width * height \<longrightarrow>
         (\<exists>!p. p < nat world_size \<and> offset (pd ! p) \<le> i \<and>
                i < offset (pd ! p) + num_cells (pd ! p)))"
proof -
  have tot: "1 \<le> width * height" using assms(1,2) by (simp add: int_one_le_iff_zero_less)
  from proc_data_init_bounds [OF _ assms(3), of width height] tot
  obtain pd where pd: "proc_data_init width height world_size = Some pd" by auto
  from generation_refines [OF assms(1-5) _ pd, of worker_bufs] assms(6)
  obtain merged where "generation pd world_size prev new worker_bufs (adjacency_offsets width)
             width height = Some (merged, prev)" "length merged = nat (width * height)"
      "\<forall>i. 0 \<le> i \<and> i < width * height \<longrightarrow> merged ! nat i = nextState i prev width height"
    by blast
  moreover have "\<forall>i. 0 \<le> i \<and> i < width * height \<longrightarrow>
         (\<exists>!p. p < nat world_size \<and> offset (pd ! p) \<le> i \<and>
                i < offset (pd ! p) + num_cells (pd ! p))"
    using partition_unique_owner [OF tot assms(3) pd] by blast
  ultimately show ?thesis using pd by blast
qed

theorem generation_refines_sequential_witness:
  "\<exists>pd merged. proc_data_init 3 3 2 = Some pd \<and>
      generation pd 2 [False, False, False, True, True, True, False, False, False]
        (replicate 9 True) (\<lambda>p. (replicate 9 False, replicate 9 True)) (adjacency_offsets 3) 3 3
        = Some (merged, [False, False, False, True, True, True, False, False, False]) \<and>
      length merged = 9 \<and> merged ! 1 = True \<and> merged ! 3 = False"
proof -
  let ?prev = "[False, False, False, True, True, True, False, False, False]"
  have h: "(0::int) < 3" "(0::int) < 3" "(1::int) \<le> 2" "length ?prev = nat (3 * 3)"
    "length (replicate 9 True) = nat (3 * 3)"
    "\<forall>p. 1 \<le> p \<and> p < nat 2 \<longrightarrow>
          length (fst ((\<lambda>p. (replicate 9 False, replicate 9 True)) p)) = nat (3 * 3) \<and>
          length (snd ((\<lambda>p. (replicate 9 False, replicate 9 True)) p)) = nat (3 * 3)"
    by simp_all
  from generation_refines_sequential [OF h]
  obtain pd merged where a: "proc_data_init 3 3 2 = Some pd"
    "generation pd 2 ?prev (replicate 9 True) (\<lambda>p. (replicate 9 False, replicate 9 True))
        (adjacency_offsets 3) 3 3 = Some (merged, ?prev)"
    "length merged = nat (3 * 3)"
    "\<forall>i. 0 \<le> i \<and> i < 3 * 3 \<longrightarrow> merged ! nat i = nextState i ?prev 3 3"
    by blast
  have "nextState 1 ?prev 3 3 = True" "nextState 3 ?prev 3 3 = False"
    by (simp_all add: nextState_def liveNeighbors_def)
  with a(4) [rule_format, of 1] a(4) [rule_format, of 3]
  have "merged ! 1 = True" "merged ! 3 = False" by simp_all
  with a(1,2,3) show ?thesis by simp
qed

section \<open>Grid edges\<close>

text \<open>
  Claim C4, as amended. In a grid of width at least 3, for every row \<open>r\<close> of the grid the
  live-neighbour count of the cell at column \<open>width - 1\<close> does not depend on the state of
  the cell at column 0 of the same row, and the count of the cell at column 0 does not depend on
  the state of the cell at column \<open>width - 1\<close>: neither contributes to the other's count.
  The claim as stated, for every grid, fails at width 2, where columns 0 and \<open>width - 1\<close>
  are adjacent: there each cell's state changes the other's count (the counterexample).
\<close>

theorem no_horizontal_wraparound:
  assumes "3 \<le> width" and "0 \<le> r" and "r < height" and "length prev = nat (width * height)"
  shows "alive_adj_cells (prev[nat (r * width) := v]) (adjacency_offsets width) width height
           (r * width + (width - 1)) =
         alive_adj_cells prev (adjacency_offsets width) width height (r * width + (width - 1)) \<and>
         alive_adj_cells (prev[nat (r * width + (width - 1)) := v]) (adjacency_offsets width)
           width height (r * width) =
         alive_adj_cells prev (adjacency_offsets width) width height (r * width)"
  using no_wrap_right [OF assms(1,2,4)] no_wrap_left [OF assms(1,2,4)] by simp

theorem no_horizontal_wraparound_witness:
  "alive_adj_cells [True, False, True, False, False, False] (adjacency_offsets 3) 3 2 2 =
   alive_adj_cells [False, False, True, False, False, False] (adjacency_offsets 3) 3 2 2 \<and>
   alive_adj_cells [True, False, True, False, False, False] (adjacency_offsets 3) 3 2 0 =
   alive_adj_cells [True, False, False, False, False, False] (adjacency_offsets 3) 3 2 0"
proof -
  let ?g = "[True, False, True, False, False, False]"
  have h: "(3::int) \<le> 3" "(0::int) \<le> 0" "(0::int) < 2" "length ?g = nat (3 * 2)"
    by simp_all
  from no_horizontal_wraparound [OF h, of False] show ?thesis by simp
qed

theorem no_horizontal_wraparound_counterexample:
  "alive_adj_cells [True, True] (adjacency_offsets 2) 2 1 1 \<noteq>
   alive_adj_cells [False, True] (adjacency_offsets 2) 2 1 1 \<and>
   alive_adj_cells [True, True] (adjacency_offsets 2) 2 1 0 \<noteq>
   alive_adj_cells [True, False] (adjacency_offsets 2) 2 1 0"
  by code_simp


text \<open>
  Claim C10. For width at least 3 the eight adjacency offsets are pairwise distinct and non-zero;
  for a cell of the grid, entry \<open>k\<close> of the table is counted exactly when the candidate
  \<open>cell + offset\<close> is a true grid neighbour of the cell (inside the grid, row and column
  each differing by at most 1, not the cell itself) and is live, and every true neighbour is
  the candidate of an entry of the table. For width 1 the table contains 0 and for widths 1
  and 2 it contains repeated offsets: in the 1 by 1 grid the only cell, when live, counts itself
  twice, and in the 2 by 1 grid a cell counts its single live neighbour twice. The count
  follows that one cell: in every 1 by 1 grid it is 2 when the cell itself is live and 0 when
  it is dead, and in every 2 by 1 grid the count of either cell is 2 when the other cell is
  live and 0 when it is dead, whatever its own state.
\<close>

theorem offsets_and_neighbors:
  "(3 \<le> width \<longrightarrow> distinct (adjacency_offsets width) \<and> 0 \<notin> set (adjacency_offsets width)) \<and>
   (3 \<le> width \<and> 0 \<le> cell \<and> cell < width * height \<and> length prev = nat (width * height) \<longrightarrow>
      (\<forall>k < 8. adj_cell_alive prev (adjacency_offsets width) width height cell k =
          Some (grid_neighbor width height cell (cell + adjacency_offsets width ! k) \<and>
                prev ! nat (cell + adjacency_offsets width ! k))) \<and>
      (\<forall>n. grid_neighbor width height cell n \<longrightarrow> n - cell \<in> set (adjacency_offsets width))) \<and>
   0 \<in> set (adjacency_offsets 1) \<and> \<not> distinct (adjacency_offsets 1) \<and>
   \<not> distinct (adjacency_offsets 2) \<and>
   alive_adj_cells [True] (adjacency_offsets 1) 1 1 0 = Some 2 \<and>
   alive_adj_cells [True, True] (adjacency_offsets 2) 2 1 0 = Some 2 \<and>
   alive_adj_cells [a] (adjacency_offsets 1) 1 1 0 = Some (if a then 2 else 0) \<and>
   alive_adj_cells [a, b] (adjacency_offsets 2) 2 1 0 = Some (if b then 2 else 0) \<and>
   alive_adj_cells [a, b] (adjacency_offsets 2) 2 1 1 = Some (if a then 2 else 0)"
proof (intro conjI impI allI)
  assume "3 \<le> width"
  then show "distinct (adjacency_offsets width)" "0 \<notin> set (adjacency_offsets width)"
    by (simp_all add: adjacency_offsets_def)
next
  fix k :: nat
  assume a: "3 \<le> width \<and> 0 \<le> cell \<and> cell < width * height \<and> length prev = nat (width * height)"
    and k: "k < 8"
  then have w: "3 \<le> width" "0 < width" by simp_all
  from adj_cell_alive_eq [OF _ w(2) _ k, of prev height cell] a
    checks_iff_grid_neighbor [OF w(1) k, of cell height]
  show "adj_cell_alive prev (adjacency_offsets width) width height cell k =
          Some (grid_neighbor width height cell (cell + adjacency_offsets width ! k) \<and>
                prev ! nat (cell + adjacency_offsets width ! k))"
    by auto
next
  fix n
  assume "3 \<le> width \<and> 0 \<le> cell \<and> cell < width * height \<and> length prev = nat (width * height)"
    and "grid_neighbor width height cell n"
  then show "n - cell \<in> set (adjacency_offsets width)"
    using grid_neighbor_offset [of width height cell n] by simp
next
  show "0 \<in> set (adjacency_offsets 1)" "\<not> distinct (adjacency_offsets 1)"
    "\<not> distinct (adjacency_offsets 2)"
    by (simp_all add: adjacency_offsets_def)
  show "alive_adj_cells [True] (adjacency_offsets 1) 1 1 0 = Some 2"
    "alive_adj_cells [True, True] (adjacency_offsets 2) 2 1 0 = Some 2"
    by code_simp+
  show "alive_adj_cells [a] (adjacency_offsets 1) 1 1 0 = Some (if a then 2 else 0)"
    by (cases a) (simp_all, code_simp+)
  show "alive_adj_cells [a, b] (adjacency_offsets 2) 2 1 0 = Some (if b then 2 else 0)"
    by (cases a; cases b) (simp_all, code_simp+)
  show "alive_adj_cells [a, b] (adjacency_offsets 2) 2 1 1 = Some (if a then 2 else 0)"
    by (cases a; cases b) (simp_all, code_simp+)
qed

theorem offsets_and_neighbors_witness:
  "distinct (adjacency_offsets 3) \<and> 0 \<notin> set (adjacency_offsets 3) \<and>
   adj_cell_alive [True, True, True, True, True, True] (adjacency_offsets 3) 3 2 2 4 = Some False \<and>
   adj_cell_alive [True, True, True, True, True, True] (adjacency_offsets 3) 3 2 2 3 = Some True"
proof -
  let ?g = "[True, True, True, True, True, True]"
  have h: "(3::int) \<le> 3" and h2: "(3::int) \<le> 3 \<and> (0::int) \<le> 2 \<and> (2::int) < 3 * 2 \<and> length ?g = nat (3 * 2)"
    by simp_all
  note t = offsets_and_neighbors [of 3 2 2 ?g]
  from t h have a: "distinct (adjacency_offsets 3)" "0 \<notin> set (adjacency_offsets 3)" by blast+
  from t h2 have b: "\<forall>k < 8. adj_cell_alive ?g (adjacency_offsets 3) 3 2 2 k =
          Some (grid_neighbor 3 2 2 (2 + adjacency_offsets 3 ! k) \<and>
                ?g ! nat (2 + adjacency_offsets 3 ! k))"
    by blast
  have "adj_cell_alive ?g (adjacency_offsets 3) 3 2 2 4 = Some False"
    using b [rule_format, of 4] by (simp add: adjacency_offsets_def grid_neighbor_def)
  moreover have "adj_cell_alive ?g (adjacency_offsets 3) 3 2 2 3 = Some True"
    using b [rule_format, of 3] by (simp add: adjacency_offsets_def grid_neighbor_def)
  ultimately show ?thesis using a by simp
qed

section \<open>Blinker\<close>

text \<open>
  Claim C5. Take a grid that is all dead except three live cells in a row, at row \<open>R\<close> and
  columns \<open>C - 1\<close> to \<open>C + 1\<close>, with a dead border around them (\<open>1 \<le> R\<close>,
  \<open>R + 1 < height\<close>, \<open>1 \<le> C\<close>, \<open>C + 1 < width\<close>): this holds for the row centred
  in any grid of at least 5 by 5 cells. One generation, with any number of processes, yields
  exactly the vertical three-cell column through \<open>(R, C)\<close>; a second generation, run on the
  swapped buffers as main does, yields exactly the original horizontal grid.
\<close>

theorem blinker_oscillates:
  assumes "1 \<le> R" and "R + 1 < height" and "1 \<le> C" and "C + 1 < width"
    and "1 \<le> world_size" and "length new = nat (width * height)"
    and "\<forall>p. 1 \<le> p \<and> p < nat world_size \<longrightarrow>
          length (fst (worker_bufs p)) = nat (width * height) \<and>
          length (snd (worker_bufs p)) = nat (width * height)"
    and "\<forall>p. 1 \<le> p \<and> p < nat world_size \<longrightarrow>
          length (fst (worker_bufs' p)) = nat (width * height) \<and>
          length (snd (worker_bufs' p)) = nat (width * height)"
  shows "\<exists>pd. proc_data_init width height world_size = Some pd \<and>
     generation pd world_size (grid_of (horizontal_blinker R C) width height) new worker_bufs
         (adjacency_offsets width) width height
       = Some (grid_of (vertical_blinker R C) width height,
               grid_of (horizontal_blinker R C) width height) \<and>
     generation pd world_size (grid_of (vertical_blinker R C) width height)
         (grid_of (horizontal_blinker R C) width height) worker_bufs'
         (adjacency_offsets width) width height
       = Some (grid_of (horizontal_blinker R C) width height,
               grid_of (vertical_blinker R C) width height)"
proof -
  have w: "0 < width" and h: "0 < height" using assms(1-4) by simp_all
  then have tot: "0 \<le> width * height" by simp
  from proc_data_init_bounds [OF tot assms(5)]
  obtain pd where pd: "proc_data_init width height world_size = Some pd" by blast
  have g1: "generation pd world_size (grid_of (horizontal_blinker R C) width height) new worker_bufs
         (adjacency_offsets width) width height
       = Some (grid_of (vertical_blinker R C) width height,
               grid_of (horizontal_blinker R C) width height)"
  proof (rule generation_grid_of [OF w h assms(5,6) _ pd])
    show "length (fst (worker_bufs p)) = nat (width * height) \<and>
          length (snd (worker_bufs p)) = nat (width * height)"
      if "1 \<le> p" "p < nat world_size" for p using assms(7) that by blast
    show "nextState (r * width + c) (grid_of (horizontal_blinker R C) width height) width height
         = vertical_blinker R C r c"
      if "0 \<le> r" "r < height" "0 \<le> c" "c < width" for r c
      using that by (rule blinker_step_h [OF assms(1-4)])
  qed
  have g2: "generation pd world_size (grid_of (vertical_blinker R C) width height)
         (grid_of (horizontal_blinker R C) width height) worker_bufs'
         (adjacency_offsets width) width height
       = Some (grid_of (horizontal_blinker R C) width height,
               grid_of (vertical_blinker R C) width height)"
  proof (rule generation_grid_of [OF w h assms(5) length_grid_of _ pd])
    show "length (fst (worker_bufs' p)) = nat (width * height) \<and>
          length (snd (worker_bufs' p)) = nat (width * height)"
      if "1 \<le> p" "p < nat world_size" for p using assms(8) that by blast
    show "nextState (r * width + c) (grid_of (vertical_blinker R C) width height) width height
         = horizontal_blinker R C r c"
      if "0 \<le> r" "r < height" "0 \<le> c" "c < width" for r c
      using that by (rule blinker_step_v [OF assms(1-4)])
  qed
  from pd g1 g2 show ?thesis by blast
qed

theorem blinker_oscillates_witness:
  "\<exists>pd. proc_data_init 5 5 3 = Some pd \<and>
     generation pd 3
       [False, False, False, False, False,
        False, False, False, False, False,
        False, True, True, True, False,
        False, False, False, False, False,
        False, False, False, False, False]
       (replicate 25 False) (\<lambda>p. (replicate 25 False, replicate 25 False))
       (adjacency_offsets 5) 5 5
     = Some ([False, False, False, False, False,
        False, False, True, False, False,
        False, False, True, False, False,
        False, False, True, False, False,
        False, False, False, False, False],
             [False, False, False, False, False,
        False, False, False, False, False,
        False, True, True, True, False,
        False, False, False, False, False,
        False, False, False, False, False]) \<and>
     generation pd 3
       [False, False, False, False, False,
        False, False, True, False, False,
        False, False, True, False, False,
        False, False, True, False, False,
        False, False, False, False, False]
       [False, False, False, False, False,
        False, False, False, False, False,
        False, True, True, True, False,
        False, False, False, False, False,
        False, False, False, False, False]
       (\<lambda>p. (replicate 25 False, replicate 25 False))
       (adjacency_offsets 5) 5 5
     = Some ([False, False, False, False, False,
        False, False, False, False, False,
        False, True, True, True, False,
        False, False, False, False, False,
        False, False, False, False, False],
             [False, False, False, False, False,
        False, False, True, False, False,
        False, False, True, False, False,
        False, False, True, False, False,
        False, False, False, False, False])"
proof -
  let ?wb = "\<lambda>p::nat. (replicate 25 False, replicate 25 False)"
  have h: "(1::int) \<le> 2" "(2::int) + 1 < 5" "(1::int) \<le> 2" "(2::int) + 1 < 5" "(1::int) \<le> 3"
    "length (replicate 25 False) = nat (5 * 5)"
    "\<forall>p. 1 \<le> p \<and> p < nat 3 \<longrightarrow>
          length (fst (?wb p)) = nat (5 * 5) \<and> length (snd (?wb p)) = nat (5 * 5)"
    "\<forall>p. 1 \<le> p \<and> p < nat 3 \<longrightarrow>
          length (fst (?wb p)) = nat (5 * 5) \<and> length (snd (?wb p)) = nat (5 * 5)"
    by simp_all
  have H: "grid_of (horizontal_blinker 2 2) 5 5 =
       [False, False, False, False, False,
        False, False, False, False, False,
        False, True, True, True, False,
        False, False, False, False, False,
        False, False, False, False, False]"
    by code_simp
  have V: "grid_of (vertical_blinker 2 2) 5 5 =
       [False, False, False, False, False,
        False, False, True, False, False,
        False, False, True, False, False,
        False, False, True, False, False,
        False, False, False, False, False]"
    by code_simp
  from blinker_oscillates [OF h] show ?thesis unfolding H V by blast
qed

section \<open>Initial state\<close>

text \<open>
  Claim C7, as amended. For positive width and height whose product is in the range of
  \<open>int\<close> (at most \<open>2^31 - 1\<close>), a non-negative number of live cells and every sequence
  of values that \<open>rand()\<close> may return, fill_game_field on the zeroed field that main
  allocates returns a grid of \<open>width * height\<close> cells; exactly \<open>live_cells\<close> of them are
  true when \<open>live_cells \<le> width * height\<close>, and all of them are true when
  \<open>live_cells \<ge> width * height\<close>.
  The claim as stated, for every positive width and height, fails when the product leaves the
  range: at 65536 by 65536 the \<open>int\<close> product is 0, main allocates an empty field, the loop
  runs no round and no cell is live, whatever \<open>live_cells\<close> is (the counterexample, with 5).
\<close>

theorem fill_game_field_count:
  assumes "0 < width" and "0 < height" and "0 \<le> live_cells"
    and "width * height \<le> 2147483647"
  shows "\<exists>field. fill_game_field draws (replicate (nat (width * height)) False) width height
            live_cells = Some field \<and>
     length field = nat (width * height) \<and>
     (live_cells \<le> width * height \<longrightarrow> int (length (filter id field)) = live_cells) \<and>
     (width * height \<le> live_cells \<longrightarrow> (\<forall>j < nat (width * height). field ! j))"
proof (cases "live_cells < width * height")
  case True
  have "0 \<le> width * height" using assms(1,2) by simp
  from fill_exact [OF this assms(3) True assms(4), of draws] True show ?thesis by auto
next
  case False
  have n: "0 < width * height" using assms(1,2) by simp
  from False have l: "width * height \<le> live_cells" by simp
  from fill_all [OF n l assms(4), of draws]
  obtain field where f: "fill_game_field draws (replicate (nat (width * height)) False) width height
            live_cells = Some field" "length field = nat (width * height)"
      "\<forall>j < nat (width * height). field ! j" by blast
  then have "\<forall>x \<in> set field. id x" by (auto simp: in_set_conv_nth)
  then have "filter id field = field" by (simp only: filter_id_conv)
  then have "int (length (filter id field)) = width * height" using f(2) n by simp
  with f l show ?thesis by auto
qed

theorem fill_game_field_count_witness:
  "\<exists>field. fill_game_field (const_draws 100) (replicate 6 False) 3 2 4 = Some field \<and>
     length field = 6 \<and> length (filter id field) = 4"
proof -
  have h: "(0::int) < 3" "(0::int) < 2" "(0::int) \<le> 4" "(3::int) * 2 \<le> 2147483647"
    by simp_all
  from fill_game_field_count [OF h, of "const_draws 100"] show ?thesis by auto
qed

theorem fill_game_field_overflow_counterexample:
  "(0::int) < 65536 \<and> (5::int) \<le> 65536 * 65536 \<and> c_int (65536 * 65536) = 0 \<and>
   fill_game_field (const_draws 0) (replicate (nat (c_int (65536 * 65536))) False) 65536 65536 5
     = Some []"
  by (simp add: c_int_def fill_game_field_def)

section \<open>Arguments\<close>

text \<open>
  A run with too few arguments on two ranks: rank 1 reads the missing \<open>argv[3]\<close> while
  rank 0 aborts, so the run is undefined.
\<close>

lemma missing_argument_on_other_rank:
  "read_args 3 [''life'', ''4'', ''1''] 1 = Inl Undefined_behaviour \<and>
   main 3 [''life'', ''4'', ''1''] 2 (const_draws 0) = Inl Undefined_behaviour"
  by code_simp

text \<open>
  Claim C8, as amended. When the argument count is wrong, \<open>argv[0]\<close> names the program, and
  no other rank reads a missing argument (the run has a single rank, or there are more than
  six arguments), read_args on rank 0 writes the usage text and aborts with status 1, and so
  the whole run ends there: main returns no output and computes no generation. No rank other
  than 0 reports anything. With six arguments read_args reports no error whatever their values.
  The claim as stated also promises the abort for a non-positive width, height or
  \<open>print_modulo\<close>; read_args does not look at the values: with width 0 it returns the
  configuration, and the run goes on to print two (empty) game states (the counterexample).
\<close>

theorem wrong_argument_count_aborts:
  "(argc \<noteq> 6 \<and> argv \<noteq> [] \<and> (world_size \<le> 1 \<or> 6 \<le> length argv) \<longrightarrow>
      read_args argc argv 0 = Inl (Aborted 1 (usage (hd argv))) \<and>
      main argc argv world_size draws = Inl (Aborted 1 (usage (hd argv)))) \<and>
   (proc_id \<noteq> 0 \<longrightarrow> read_args argc argv proc_id \<noteq> Inl (Aborted status msg)) \<and>
   (length argv = 6 \<longrightarrow> (\<exists>cfg. read_args 6 argv proc_id = Inr cfg))"
proof (intro conjI impI)
  assume a: "argc \<noteq> 6 \<and> argv \<noteq> [] \<and> (world_size \<le> 1 \<or> 6 \<le> length argv)"
  then have "rd argv 0 = Some (hd argv)" by (cases argv) (simp_all add: rd_def)
  with a show r: "read_args argc argv 0 = Inl (Aborted 1 (usage (hd argv)))"
    by (simp add: read_args_def)
  have "\<not> rank_undefined argc argv rank" if rank: "rank \<in> set [1..<nat world_size]" for rank
  proof -
    from rank have "1 \<le> rank" "1 < world_size" by auto
    with a have l: "6 \<le> length argv" and p: "int rank \<noteq> 0" by auto
    from l have "\<exists>a. rd argv 1 = Some a" "\<exists>a. rd argv 2 = Some a" "\<exists>a. rd argv 3 = Some a"
      "\<exists>a. rd argv 4 = Some a" "\<exists>a. rd argv 5 = Some a"
      by (simp_all add: rd_def)
    with p show ?thesis by (auto simp: rank_undefined_def read_args_def)
  qed
  then have "\<not> list_ex (rank_undefined argc argv) [1..<nat world_size]"
    unfolding list_ex_iff by blast
  with r show "main argc argv world_size draws = Inl (Aborted 1 (usage (hd argv)))"
    by (simp add: main_def)
next
  assume "proc_id \<noteq> 0"
  then show "read_args argc argv proc_id \<noteq> Inl (Aborted status msg)"
    by (auto simp: read_args_def split: option.splits)
next
  assume "length argv = 6"
  then have "\<exists>a. rd argv 1 = Some a" "\<exists>a. rd argv 2 = Some a" "\<exists>a. rd argv 3 = Some a"
    "\<exists>a. rd argv 4 = Some a" "\<exists>a. rd argv 5 = Some a"
    by (simp_all add: rd_def)
  then show "\<exists>cfg. read_args 6 argv proc_id = Inr cfg"
    by (auto simp: read_args_def)
qed

theorem wrong_argument_count_aborts_witness:
  "main 3 [''life'', ''4'', ''1''] 1 (const_draws 0) = Inl (Aborted 1 (usage ''life'')) \<and>
   main 7 [''life'', ''4'', ''1'', ''1'', ''5'', ''5'', ''9''] 2 (const_draws 0)
     = Inl (Aborted 1 (usage ''life'')) \<and>
   (\<exists>cfg. read_args 6 [''life'', ''4'', ''1'', ''1'', ''5'', ''5''] 0 = Inr cfg)"
proof -
  have "(3::int) \<noteq> 6 \<and> [''life'', ''4'', ''1''] \<noteq> [] \<and>
      ((1::int) \<le> 1 \<or> 6 \<le> length [''life'', ''4'', ''1''])" by simp
  with wrong_argument_count_aborts [of 3 "[''life'', ''4'', ''1'']" 1 "const_draws 0"]
  have "main 3 [''life'', ''4'', ''1''] 1 (const_draws 0) = Inl (Aborted 1 (usage ''life''))"
    by simp
  moreover have "(7::int) \<noteq> 6 \<and> [''life'', ''4'', ''1'', ''1'', ''5'', ''5'', ''9''] \<noteq> [] \<and>
      ((2::int) \<le> 1 \<or> 6 \<le> length [''life'', ''4'', ''1'', ''1'', ''5'', ''5'', ''9''])" by simp
  with wrong_argument_count_aborts [of 7 "[''life'', ''4'', ''1'', ''1'', ''5'', ''5'', ''9'']" 2
      "const_draws 0"]
  have "main 7 [''life'', ''4'', ''1'', ''1'', ''5'', ''5'', ''9''] 2 (const_draws 0)
     = Inl (Aborted 1 (usage ''life''))"
    by simp
  moreover have "length [''life'', ''4'', ''1'', ''1'', ''5'', ''5''] = 6" by simp
  with wrong_argument_count_aborts [where argv = "[''life'', ''4'', ''1'', ''1'', ''5'', ''5'']"
      and proc_id = 0]
  have "\<exists>cfg. read_args 6 [''life'', ''4'', ''1'', ''1'', ''5'', ''5''] 0 = Inr cfg"
    by blast
  ultimately show ?thesis by blast
qed

theorem nonpositive_width_not_detected_counterexample:
  "read_args 6 [''life'', ''4'', ''1'', ''1'', ''0'', ''5''] 0 =
     Inr \<lparr>cfg_live_cells = 4, cfg_iterations = 1, cfg_print_modulo = 1,
          cfg_width = 0, cfg_height = 5\<rparr> \<and>
   main 6 [''life'', ''4'', ''1'', ''1'', ''0'', ''5''] 1 (const_draws 0) =
     Inr [Game_state 0, Row [], Row [], Row [], Row [], Row [],
          Game_state 1, Row [], Row [], Row [], Row [], Row []]"
  by code_simp

end
